theory Spec2Isabelle
  imports Main "HOL-Library.Sublist"
begin

section \<open>Diff change review (ApplyView)\<close>

subsection \<open>Data model\<close>

text \<open>
  A \<open>Change\<close> of the diff library carries its text and two optional flags; an absent flag
  is falsy wherever the view reads it, so both flags are booleans here. The view extends it
  with the user's decision: \<open>accepted: boolean | null\<close>, \<open>null\<close> meaning undecided.
\<close>

record Change =
  value_text :: string
  added :: bool
  removed :: bool

record ExtendedChange = Change +
  accepted :: "bool option"

subsection \<open>Reconstructed views\<close>

text \<open>The callback of the filter in \<open>buildContentFromDiff\<close>.\<close>

definition content_keep :: "ExtendedChange \<Rightarrow> bool" where
  "content_keep change =
     (if added change then accepted change = Some True
      else if removed change then accepted change = Some False
      else True)"

definition buildContentFromDiff :: "ExtendedChange list \<Rightarrow> string" where
  "buildContentFromDiff changes = concat (map value_text (filter content_keep changes))"

text \<open>The callback of the filter in \<open>buildPreviewResultFromDiff\<close>.\<close>

definition preview_keep :: "ExtendedChange \<Rightarrow> bool" where
  "preview_keep change =
     (if added change then accepted change \<noteq> Some False
      else if removed change then accepted change = Some False
      else True)"

definition buildPreviewResultFromDiff :: "ExtendedChange list \<Rightarrow> string" where
  "buildPreviewResultFromDiff changes = concat (map value_text (filter preview_keep changes))"

definition originalContent :: "ExtendedChange list \<Rightarrow> string" where
  "originalContent diff = concat (map value_text (filter (\<lambda>change. \<not> added change) diff))"

definition proposedContent :: "ExtendedChange list \<Rightarrow> string" where
  "proposedContent diff = concat (map value_text (filter (\<lambda>change. \<not> removed change) diff))"

subsection \<open>Decisions on a block\<close>

text \<open>
  \<open>acceptBlock\<close> and \<open>rejectBlock\<close> look every entry of the block up in the diff by object
  identity (\<open>change === blockChange\<close>) and replace the entry found by a fresh copy with the
  decision set. Identity is modelled by an explicit store: an object is an address into a
  list of objects, allocation appends to the list, and the diff and the blocks are lists
  of addresses.
\<close>

type_synonym ref = nat
type_synonym heap = "ExtendedChange list"

text \<open>\<open>Array.prototype.findIndex\<close>; the result \<open>-1\<close> is \<open>None\<close>.\<close>

fun findIndex :: "('a \<Rightarrow> bool) \<Rightarrow> 'a list \<Rightarrow> nat option" where
  "findIndex P [] = None"
| "findIndex P (x # xs) = (if P x then Some 0 else map_option Suc (findIndex P xs))"

text \<open>The body of \<open>block.forEach\<close>, with the decision written as a parameter.\<close>

definition decide_entry :: "bool option \<Rightarrow> heap \<times> ref list \<Rightarrow> ref \<Rightarrow> heap \<times> ref list" where
  "decide_entry d st blockChange =
     (case st of (h, newDiff) \<Rightarrow>
        (case findIndex (\<lambda>change. change = blockChange) newDiff of
           None \<Rightarrow> (h, newDiff)
         | Some index \<Rightarrow>
             (h @ [(h ! (newDiff ! index))\<lparr>accepted := d\<rparr>], newDiff[index := length h])))"

text \<open>
  The state updater of \<open>acceptBlock\<close>: \<open>changeBlocks\<close> is the grouping of the rendered
  diff, \<open>changeBlocks?.[blockIndex]\<close> is undefined out of range and the copy of the
  previous diff is returned as it is.
\<close>

definition acceptBlock :: "ref list list \<Rightarrow> nat \<Rightarrow> heap \<times> ref list \<Rightarrow> heap \<times> ref list" where
  "acceptBlock changeBlocks blockIndex st =
     (if blockIndex < length changeBlocks
      then foldl (decide_entry (Some True)) st (changeBlocks ! blockIndex)
      else st)"

definition rejectBlock :: "ref list list \<Rightarrow> nat \<Rightarrow> heap \<times> ref list \<Rightarrow> heap \<times> ref list" where
  "rejectBlock changeBlocks blockIndex st =
     (if blockIndex < length changeBlocks
      then foldl (decide_entry (Some False)) st (changeBlocks ! blockIndex)
      else st)"

text \<open>The updater of the Revert button.\<close>

definition revertBlock :: "ref list list \<Rightarrow> nat \<Rightarrow> heap \<times> ref list \<Rightarrow> heap \<times> ref list" where
  "revertBlock changeBlocks blockIndex st =
     (if blockIndex < length changeBlocks
      then foldl (decide_entry None) st (changeBlocks ! blockIndex)
      else st)"

text \<open>The entries of the diff, read through the store.\<close>

definition entries :: "heap \<times> ref list \<Rightarrow> ExtendedChange list" where
  "entries st = map (\<lambda>r. fst st ! r) (snd st)"

text \<open>
  The initial state of the view: every change of \<open>state.changes\<close> is copied into a new
  object with the decision \<open>null\<close>.
\<close>

definition initial_diff :: "Change list \<Rightarrow> heap \<times> ref list" where
  "initial_diff changes =
     (map (\<lambda>change. \<lparr>value_text = value_text change, added = added change,
                       removed = removed change, accepted = None\<rparr>) changes,
      [0..<length changes])"

text \<open>The diff that \<open>handleAcceptAll\<close> commits.\<close>

definition handleAcceptAll_updatedDiff :: "ExtendedChange list \<Rightarrow> ExtendedChange list" where
  "handleAcceptAll_updatedDiff diff =
     map (\<lambda>change. if added change then change\<lparr>accepted := Some True\<rparr>
                   else if removed change then change\<lparr>accepted := Some False\<rparr>
                   else change) diff"

text \<open>The diff that \<open>handleRejectAll\<close> commits.\<close>

definition handleRejectAll_updatedDiff :: "ExtendedChange list \<Rightarrow> ExtendedChange list" where
  "handleRejectAll_updatedDiff diff =
     map (\<lambda>change. if added change \<or> removed change then change\<lparr>accepted := Some False\<rparr>
                   else change) diff"

subsection \<open>Grouping into blocks\<close>

text \<open>
  Modelled from the spec: \<open>getChangeBlocks\<close> is imported from \<open>@/composerUtils\<close>, which is
  not among the sources. The specification describes it as one walk over the change
  sequence with a current block accumulator, a new block starting at every transition
  between a changed entry (added or removed) and an unchanged one, and the empty sequence
  giving no block.
\<close>

definition changed :: "'a Change_scheme \<Rightarrow> bool" where
  "changed change = (added change \<or> removed change)"

text \<open>
  Modelled from the spec: the walk of \<open>getChangeBlocks\<close> with its accumulator; the
  block being built is closed when the next entry is of the other kind, and at the end.
\<close>

fun walk_changes :: "'a Change_scheme list \<Rightarrow> 'a Change_scheme list \<Rightarrow> 'a Change_scheme list list" where
  "walk_changes currentBlock [] = (if currentBlock = [] then [] else [currentBlock])"
| "walk_changes currentBlock (change # rest) =
     (if currentBlock = [] \<or> changed (last currentBlock) = changed change
      then walk_changes (currentBlock @ [change]) rest
      else currentBlock # walk_changes [change] rest)"

text \<open>
  Modelled from the spec: \<open>getChangeBlocks\<close> itself, the walk started with an empty
  accumulator.
\<close>

definition getChangeBlocks :: "'a Change_scheme list \<Rightarrow> 'a Change_scheme list list" where
  "getChangeBlocks changes = walk_changes [] changes"

section \<open>Streaming action blocks (ActionBlockStreamer)\<close>

subsection \<open>Strings\<close>

text \<open>
  Strings are lists of code units below 256. \<open>index_of\<close> is the first position at which a
  literal occurs, \<open>trim\<close> and \<open>toLowerCase\<close> are the string methods of the same name on
  that range of code units.
\<close>

fun index_of :: "string \<Rightarrow> string \<Rightarrow> nat option" where
  "index_of pat [] = (if pat = [] then Some 0 else None)"
| "index_of pat (c # cs) =
     (if prefix pat (c # cs) then Some 0 else map_option Suc (index_of pat cs))"

definition is_space :: "char \<Rightarrow> bool" where
  "is_space c = (of_char c \<in> {9, 10, 11, 12, 13, 32, 160 :: nat})"

definition trim :: "string \<Rightarrow> string" where
  "trim s = rev (dropWhile is_space (rev (dropWhile is_space s)))"

definition lower_char :: "char \<Rightarrow> char" where
  "lower_char c =
     (let n = of_char c :: nat
      in if (65 \<le> n \<and> n \<le> 90) \<or> (192 \<le> n \<and> n \<le> 222 \<and> n \<noteq> 215)
         then char_of (n + 32) else c)"

definition toLowerCase :: "string \<Rightarrow> string" where
  "toLowerCase s = map lower_char s"

subsection \<open>The two regular expressions\<close>

datatype tool_name =
  writeToFile | replaceInFile | deleteNote | createFolder | deleteFolder | moveFile | moveFolder

fun tag_text :: "tool_name \<Rightarrow> string" where
  "tag_text writeToFile = ''writeToFile''"
| "tag_text replaceInFile = ''replaceInFile''"
| "tag_text deleteNote = ''deleteNote''"
| "tag_text createFolder = ''createFolder''"
| "tag_text deleteFolder = ''deleteFolder''"
| "tag_text moveFile = ''moveFile''"
| "tag_text moveFolder = ''moveFolder''"

definition tagNames :: "tool_name list" where
  "tagNames =
     [writeToFile, replaceInFile, deleteNote, createFolder, deleteFolder, moveFile, moveFolder]"

definition open_tag :: "string \<Rightarrow> string" where
  "open_tag tag = ''<'' @ tag @ ''>''"

definition close_tag :: "string \<Rightarrow> string" where
  "close_tag tag = ''</'' @ tag @ ''>''"

text \<open>
  One attempt of \<open><tag>[\s\S]*?<\/tag>\<close> at the start of the text: the opening tag must
  stand there, and the lazy star stops at the first closing tag behind it. The result is
  the text between the tags and the length of the whole match.
\<close>

definition match_tag_here :: "string \<Rightarrow> string \<Rightarrow> (string \<times> nat) option" where
  "match_tag_here tag s =
     (if prefix (open_tag tag) s
      then (case index_of (close_tag tag) (drop (length (open_tag tag)) s) of
              None \<Rightarrow> None
            | Some k \<Rightarrow>
                Some (take k (drop (length (open_tag tag)) s),
                      length (open_tag tag) + k + length (close_tag tag)))
      else None)"

text \<open>
  The alternation \<open>(writeToFile|...|moveFolder)\<close> with the back reference \<open>\1\<close>: the
  alternatives are tried in their order, and one whose closing tag is missing fails over to
  the next.
\<close>

fun match_alternatives :: "tool_name list \<Rightarrow> string \<Rightarrow> (tool_name \<times> nat) option" where
  "match_alternatives [] s = None"
| "match_alternatives (t # ts) s =
     (case match_tag_here (tag_text t) s of
        Some (body, len) \<Rightarrow> Some (t, len)
      | None \<Rightarrow> match_alternatives ts s)"

text \<open>
  \<open>String.prototype.match\<close> without the global flag: the attempt is made at every start
  index from the left, the end of the text included, and the first success is the match.
\<close>

fun regex_search :: "(string \<Rightarrow> 'a option) \<Rightarrow> string \<Rightarrow> (nat \<times> 'a) option" where
  "regex_search m [] = map_option (Pair 0) (m [])"
| "regex_search m (c # cs) =
     (case m (c # cs) of
        Some r \<Rightarrow> Some (0, r)
      | None \<Rightarrow> map_option (\<lambda>(i, r). (Suc i, r)) (regex_search m cs))"

record blockInfo =
  block :: string
  toolName :: tool_name
  endIdx :: nat

definition findCompleteBlock :: "string \<Rightarrow> blockInfo option" where
  "findCompleteBlock str =
     (case regex_search (match_alternatives tagNames) str of
        None \<Rightarrow> None
      | Some (index, (t, len)) \<Rightarrow>
          Some \<lparr>block = take len (drop index str), toolName = t, endIdx = index + len\<rparr>)"

definition extractTagValue :: "string \<Rightarrow> string \<Rightarrow> string option" where
  "extractTagValue blk tag =
     (case regex_search (match_tag_here tag) blk of
        None \<Rightarrow> None
      | Some (index, (body, len)) \<Rightarrow> Some (trim body))"

definition parseBoolean :: "string option \<Rightarrow> bool option" where
  "parseBoolean v =
     (case v of
        None \<Rightarrow> None
      | Some s \<Rightarrow>
          (let v = toLowerCase (trim s)
           in if v = ''true'' then Some True
              else if v = ''false'' then Some False
              else None))"

subsection \<open>Arguments of a tool call\<close>

text \<open>
  The argument object, as the list of its properties in the order of assignment. A
  property assigned \<open>undefined\<close> is present with that value; the optional booleans are
  assigned only when \<open>parseBoolean\<close> gives one.
\<close>

datatype jsval = Undefined | Str string | Bool bool

type_synonym args = "(string \<times> jsval) list"

definition str_or_undefined :: "string option \<Rightarrow> jsval" where
  "str_or_undefined v = (case v of None \<Rightarrow> Undefined | Some s \<Rightarrow> Str s)"

definition optional_bool :: "string \<Rightarrow> bool option \<Rightarrow> args" where
  "optional_bool name v = (case v of None \<Rightarrow> [] | Some b \<Rightarrow> [(name, Bool b)])"

fun block_args :: "tool_name \<Rightarrow> string \<Rightarrow> args" where
  "block_args writeToFile blk =
     [(''path'', str_or_undefined (extractTagValue blk ''path'')),
      (''content'', str_or_undefined (extractTagValue blk ''content''))]"
| "block_args replaceInFile blk =
     [(''path'', str_or_undefined (extractTagValue blk ''path'')),
      (''diff'', str_or_undefined (extractTagValue blk ''diff''))]"
| "block_args deleteNote blk =
     [(''path'', str_or_undefined (extractTagValue blk ''path''))]"
| "block_args createFolder blk =
     [(''path'', str_or_undefined (extractTagValue blk ''path''))]"
| "block_args deleteFolder blk =
     (''path'', str_or_undefined (extractTagValue blk ''path''))
     # optional_bool ''recursive'' (parseBoolean (extractTagValue blk ''recursive''))"
| "block_args moveFile blk =
     [(''fromPath'', str_or_undefined (extractTagValue blk ''fromPath'')),
      (''toPath'', str_or_undefined (extractTagValue blk ''toPath''))]
     @ optional_bool ''createMissingFolders''
         (parseBoolean (extractTagValue blk ''createMissingFolders''))"
| "block_args moveFolder blk =
     [(''fromPath'', str_or_undefined (extractTagValue blk ''fromPath'')),
      (''toPath'', str_or_undefined (extractTagValue blk ''toPath''))]
     @ optional_bool ''createMissingFolders''
         (parseBoolean (extractTagValue blk ''createMissingFolders''))"

subsection \<open>Chunks\<close>

text \<open>
  The content of a chunk is a string, an array of parts or null; the other fields of a
  chunk are the extension of the record, which \<open>{...chunk, content: text}\<close> keeps.
\<close>

record item =
  item_type :: string
  item_text :: "string option"

datatype content = ContentNull | ContentString string | ContentArray "item list"

record chunk =
  content :: content

definition chunkContent :: "'m chunk_scheme \<Rightarrow> string" where
  "chunkContent chunk =
     (case content chunk of
        ContentArray items \<Rightarrow>
          concat (map (\<lambda>item. if item_type item = ''text''
                               then (case item_text item of Some t \<Rightarrow> t | None \<Rightarrow> [])
                               else []) items)
      | ContentString s \<Rightarrow> s
      | ContentNull \<Rightarrow> [])"

subsection \<open>Tools, errors and the trace of a call\<close>

text \<open>
  A thrown value, as the catch clause reads it: \<open>err?.message\<close> and the text of the value
  itself, which \<open>err?.message || err\<close> falls back to when the message is missing or empty.
\<close>

record thrown =
  message :: "string option"
  shown :: string

definition error_text :: "thrown \<Rightarrow> string" where
  "error_text err =
     (case message err of
        None \<Rightarrow> shown err
      | Some m \<Rightarrow> if m = [] then shown err else m)"

text \<open>
  The collaborators of the streamer: the registered tools, \<open>ToolManager.callTool\<close> acting
  on the outside world \<open>'w\<close>, and \<open>ToolResultFormatter.format\<close>. Each of the last two
  returns or throws.
\<close>

record ('t, 'r, 'w) env =
  tools :: "tool_name \<Rightarrow> 't option"
  callTool :: "'t \<Rightarrow> args \<Rightarrow> 'w \<Rightarrow> (thrown + 'r) \<times> 'w"
  format :: "tool_name \<Rightarrow> 'r \<Rightarrow> thrown + string"

text \<open>
  What a call of \<open>processChunk\<close> does, in order: the chunks it yields, the scans of the
  buffer by \<open>findCompleteBlock\<close>, and the tool calls.
\<close>

datatype 'c event = Yield 'c | Scan string | Call tool_name args

definition newline :: string where
  "newline = [CHR 0x0A]"

text \<open>
  The body of the \<open>try\<close>: the calls of \<open>callTool\<close> made (none when the tool is missing),
  the formatted text or the thrown value, and the world after it.
\<close>

definition dispatch ::
  "('t, 'r, 'w) env \<Rightarrow> tool_name \<Rightarrow> args \<Rightarrow> 'w
     \<Rightarrow> (tool_name \<times> args) list \<times> (thrown + string) \<times> 'w" where
  "dispatch e t a w =
     (case tools e t of
        None \<Rightarrow>
          ([], Inl \<lparr>message = Some (''Tool not available for tag: '' @ tag_text t),
                    shown = ''Error: Tool not available for tag: '' @ tag_text t\<rparr>, w)
      | Some tool \<Rightarrow>
          (case callTool e tool a w of
             (Inl err, w') \<Rightarrow> ([(t, a)], Inl err, w')
           | (Inr result, w') \<Rightarrow> ([(t, a)], format e t result, w')))"

text \<open>The text of the synthesized chunk, from the \<open>try\<close> or from the \<open>catch\<close>.\<close>

definition result_text :: "thrown + string \<Rightarrow> string" where
  "result_text outcome =
     (case outcome of
        Inr formattedResult \<Rightarrow> newline @ formattedResult @ newline
      | Inl err \<Rightarrow> newline @ ''Error: '' @ error_text err @ newline)"

subsection \<open>The dispatch loop\<close>

text \<open>
  Facts about the two searches, first: the loop below ends because every match is at least
  one character long, so that \<open>buffer.substring(endIdx)\<close> is shorter than the buffer.
\<close>

lemma all_le_Suc_shift: "(\<forall>j\<le>Suc n. P j) \<longleftrightarrow> P 0 \<and> (\<forall>j\<le>n. P (Suc j))"
proof
  assume "\<forall>j\<le>Suc n. P j"
  then show "P 0 \<and> (\<forall>j\<le>n. P (Suc j))" by auto
next
  assume a: "P 0 \<and> (\<forall>j\<le>n. P (Suc j))"
  show "\<forall>j\<le>Suc n. P j"
  proof (intro allI impI)
    fix j assume "j \<le> Suc n"
    with a show "P j" by (cases j) auto
  qed
qed

lemma index_of_Some_iff:
  "index_of pat s = Some k \<longleftrightarrow>
     k \<le> length s \<and> prefix pat (drop k s) \<and> (\<forall>j<k. \<not> prefix pat (drop j s))"
proof (induction s arbitrary: k)
  case Nil
  then show ?case by auto
next
  case (Cons c cs)
  show ?case
  proof (cases "prefix pat (c # cs)")
    case True
    then show ?thesis by (cases k) auto
  next
    case False
    show ?thesis
    proof (cases k)
      case 0
      with False show ?thesis by simp
    next
      case (Suc k')
      have "(\<forall>j<Suc k'. \<not> prefix pat (drop j (c # cs))) \<longleftrightarrow> (\<forall>j<k'. \<not> prefix pat (drop j cs))"
        using False by (auto simp: less_Suc_eq_0_disj)
      with False Suc Cons.IH[of k'] show ?thesis by auto
    qed
  qed
qed

lemma index_of_None_iff:
  "index_of pat s = None \<longleftrightarrow> (\<forall>j\<le>length s. \<not> prefix pat (drop j s))"
proof (induction s)
  case Nil
  then show ?case by auto
next
  case (Cons c cs)
  have "(\<forall>j\<le>length (c # cs). \<not> prefix pat (drop j (c # cs))) \<longleftrightarrow>
        \<not> prefix pat (c # cs) \<and> (\<forall>j\<le>length cs. \<not> prefix pat (drop j cs))"
    by (simp add: all_le_Suc_shift)
  with Cons show ?case by auto
qed

lemma regex_search_Some_iff:
  "regex_search m s = Some (i, r) \<longleftrightarrow>
     i \<le> length s \<and> m (drop i s) = Some r \<and> (\<forall>j<i. m (drop j s) = None)"
proof (induction s arbitrary: i)
  case Nil
  then show ?case by auto
next
  case (Cons c cs)
  show ?case
  proof (cases "m (c # cs)")
    case (Some r')
    then show ?thesis by (cases i) auto
  next
    case None
    show ?thesis
    proof (cases i)
      case 0
      with None show ?thesis by simp
    next
      case (Suc i')
      have "(\<forall>j<Suc i'. m (drop j (c # cs)) = None) \<longleftrightarrow> (\<forall>j<i'. m (drop j cs) = None)"
        using None by (auto simp: less_Suc_eq_0_disj)
      with None Suc Cons.IH[of i'] show ?thesis by auto
    qed
  qed
qed

lemma regex_search_None_iff:
  "regex_search m s = None \<longleftrightarrow> (\<forall>j\<le>length s. m (drop j s) = None)"
proof (induction s)
  case Nil
  then show ?case by auto
next
  case (Cons c cs)
  have "(\<forall>j\<le>length (c # cs). m (drop j (c # cs)) = None) \<longleftrightarrow>
        m (c # cs) = None \<and> (\<forall>j\<le>length cs. m (drop j cs) = None)"
    by (simp add: all_le_Suc_shift)
  with Cons show ?case by (auto split: option.splits)
qed

lemma match_tag_here_Some:
  "match_tag_here tag s = Some (body, len) \<Longrightarrow>
     prefix (open_tag tag) s \<and> len = length (open_tag tag) + length body + length (close_tag tag)
     \<and> index_of (close_tag tag) (drop (length (open_tag tag)) s) = Some (length body)
     \<and> body = take (length body) (drop (length (open_tag tag)) s)"
  by (auto simp: match_tag_here_def index_of_Some_iff min_def split: if_splits option.splits)

lemma match_alternatives_Some:
  "match_alternatives ts s = Some (t, len) \<Longrightarrow>
     t \<in> set ts \<and> (\<exists>body. match_tag_here (tag_text t) s = Some (body, len))"
  by (induction ts) (auto split: option.splits)

lemma match_alternatives_None:
  "match_alternatives ts s = None \<longleftrightarrow> (\<forall>t\<in>set ts. match_tag_here (tag_text t) s = None)"
  by (induction ts) (auto split: option.splits)

lemma findCompleteBlock_endIdx_pos:
  assumes "findCompleteBlock s = Some info"
  shows "0 < endIdx info"
proof -
  from assms obtain i t len where rs: "regex_search (match_alternatives tagNames) s = Some (i, (t, len))"
    and e: "endIdx info = i + len"
    by (auto simp: findCompleteBlock_def split: option.splits)
  from rs have "match_alternatives tagNames (drop i s) = Some (t, len)"
    by (simp add: regex_search_Some_iff)
  then obtain body where "match_tag_here (tag_text t) (drop i s) = Some (body, len)"
    using match_alternatives_Some by blast
  then have "0 < len" using match_tag_here_Some[of "tag_text t" "drop i s" body len]
    by (simp add: open_tag_def)
  with e show ?thesis by simp
qed

lemma findCompleteBlock_nonempty:
  "findCompleteBlock s = Some info \<Longrightarrow> s \<noteq> []"
  by (auto simp: findCompleteBlock_def tagNames_def match_tag_here_def open_tag_def split: option.splits)

text \<open>
  The \<open>while (blockInfo)\<close> loop of \<open>processChunk\<close>, from the scan that precedes each
  test of its condition: the arguments are extracted, the tool is dispatched inside the
  \<open>try\<close>, one chunk with the result or the error is yielded, the buffer is cut behind
  the block and scanned again.
\<close>

function process_blocks ::
  "('t, 'r, 'w) env \<Rightarrow> 'm chunk_scheme \<Rightarrow> string \<Rightarrow> 'w
     \<Rightarrow> 'm chunk_scheme event list \<times> string \<times> 'w" where
  "process_blocks e chunk buffer w =
     (case findCompleteBlock buffer of
        None \<Rightarrow> ([Scan buffer], buffer, w)
      | Some blockInfo \<Rightarrow>
          (case dispatch e (toolName blockInfo)
                  (block_args (toolName blockInfo) (block blockInfo)) w of
             (calls, outcome, w') \<Rightarrow>
               (case process_blocks e chunk (drop (endIdx blockInfo) buffer) w' of
                  (events, st) \<Rightarrow>
                    (Scan buffer # map (\<lambda>(t, a). Call t a) calls
                       @ Yield (chunk\<lparr>content := ContentString (result_text outcome)\<rparr>)
                       # events, st))))"
  by pat_completeness auto
termination
proof (relation "measure (\<lambda>(e, chunk, buffer, w). length buffer)")
  show "wf (measure (\<lambda>(e, chunk, buffer, w). length buffer))" by simp
next
  fix e :: "('t, 'r, 'w) env" and chunk :: "'m chunk_scheme" and buffer :: string and w :: 'w
    and blockInfo x y xa ya
  assume "findCompleteBlock buffer = Some blockInfo"
  then have "0 < endIdx blockInfo" "buffer \<noteq> []"
    by (simp_all add: findCompleteBlock_endIdx_pos findCompleteBlock_nonempty)
  then show "((e, chunk, drop (endIdx blockInfo) buffer, ya), e, chunk, buffer, w)
        \<in> measure (\<lambda>(e, chunk, buffer, w). length buffer)"
    by simp
qed

text \<open>
  \<open>processChunk\<close>: the text of the chunk is appended to the buffer, the chunk is yielded
  as it is, then the loop runs. The state is the buffer and the outside world.
\<close>

definition processChunk ::
  "('t, 'r, 'w) env \<Rightarrow> 'm chunk_scheme \<Rightarrow> string \<times> 'w
     \<Rightarrow> 'm chunk_scheme event list \<times> string \<times> 'w" where
  "processChunk e chunk st =
     (case st of (buffer, w) \<Rightarrow>
        (case process_blocks e chunk (buffer @ chunkContent chunk) w of
           (events, st') \<Rightarrow> (Yield chunk # events, st')))"

text \<open>The consumer's loop over the stream: one call of \<open>processChunk\<close> per chunk.\<close>

fun processChunks ::
  "('t, 'r, 'w) env \<Rightarrow> 'm chunk_scheme list \<Rightarrow> string \<times> 'w
     \<Rightarrow> 'm chunk_scheme event list \<times> string \<times> 'w" where
  "processChunks e [] st = ([], st)"
| "processChunks e (chunk # chunks) st =
     (case processChunk e chunk st of
        (events, st') \<Rightarrow>
          (case processChunks e chunks st' of
             (events', st'') \<Rightarrow> (events @ events', st'')))"

subsection \<open>Observations on a trace and on a stream\<close>

text \<open>The tool calls of a trace, in order.\<close>

definition calls_of :: "'c event list \<Rightarrow> (tool_name \<times> args) list" where
  "calls_of events =
     concat (map (\<lambda>ev. case ev of Call t a \<Rightarrow> [(t, a)] | _ \<Rightarrow> []) events)"

text \<open>The buffers scanned in a trace, in order.\<close>

definition scans_of :: "'c event list \<Rightarrow> string list" where
  "scans_of events =
     concat (map (\<lambda>ev. case ev of Scan b \<Rightarrow> [b] | _ \<Rightarrow> []) events)"

text \<open>
  Whether one of the recognised opening tags stands at the start of a text, and the
  positions of a text at which one begins.
\<close>

definition opens_here :: "string \<Rightarrow> bool" where
  "opens_here s = list_ex (\<lambda>t. prefix (open_tag (tag_text t)) s) tagNames"

definition open_positions :: "string \<Rightarrow> nat list" where
  "open_positions s = filter (\<lambda>i. opens_here (drop i s)) [0..<length s]"

section \<open>Properties of the change review\<close>

subsection \<open>Grouping\<close>

lemma walk_changes_concat: "concat (walk_changes currentBlock xs) = currentBlock @ xs"
  by (induction currentBlock xs rule: walk_changes.induct) auto

text \<open>
  C7. For every change sequence, the entries of all blocks of the grouping, concatenated
  in order, are the sequence itself: nothing is lost, duplicated or reordered. The empty
  sequence has no block.
\<close>

theorem getChangeBlocks_concat:
  "concat (getChangeBlocks xs) = xs \<and> getChangeBlocks ([] :: 'a Change_scheme list) = []"
  by (simp add: getChangeBlocks_def walk_changes_concat)

subsection \<open>Committed content\<close>

text \<open>
  C2. An entry that is not both added and removed contributes its value to the committed
  content, at its place, exactly when it is neutral, or added and accepted, or removed and
  rejected; an undecided added or removed entry contributes nothing.
\<close>

theorem buildContentFromDiff_includes:
  assumes "\<not> (added c \<and> removed c)"
  shows "buildContentFromDiff (xs @ c # ys) =
           buildContentFromDiff xs
           @ (if (\<not> added c \<and> \<not> removed c) \<or> (added c \<and> accepted c = Some True)
                 \<or> (removed c \<and> accepted c = Some False)
              then value_text c else [])
           @ buildContentFromDiff ys
         \<and> ((added c \<or> removed c) \<and> accepted c = None \<longrightarrow>
              buildContentFromDiff (xs @ c # ys) =
                buildContentFromDiff xs @ buildContentFromDiff ys)"
  using assms by (auto simp: buildContentFromDiff_def content_keep_def)

theorem buildContentFromDiff_includes_witness:
  "\<not> (added \<lparr>value_text = ''B'', added = False, removed = True, accepted = None\<rparr>
      \<and> removed \<lparr>value_text = ''B'', added = False, removed = True, accepted = None\<rparr>)
   \<and> buildContentFromDiff
        ([\<lparr>value_text = ''A'', added = False, removed = False, accepted = None\<rparr>]
         @ \<lparr>value_text = ''B'', added = False, removed = True, accepted = None\<rparr>
         # [\<lparr>value_text = ''C'', added = True, removed = False, accepted = Some True\<rparr>])
      = buildContentFromDiff
          [\<lparr>value_text = ''A'', added = False, removed = False, accepted = None\<rparr>]
        @ buildContentFromDiff
            [\<lparr>value_text = ''C'', added = True, removed = False, accepted = Some True\<rparr>]"
proof -
  have h: "\<not> (added \<lparr>value_text = ''B'', added = False, removed = True, accepted = None\<rparr>
      \<and> removed \<lparr>value_text = ''B'', added = False, removed = True, accepted = None\<rparr>)"
    by simp
  show ?thesis
    using h buildContentFromDiff_includes [OF h,
        of "[\<lparr>value_text = ''A'', added = False, removed = False, accepted = None\<rparr>]"
           "[\<lparr>value_text = ''C'', added = True, removed = False, accepted = Some True\<rparr>]"]
    by simp
qed

subsection \<open>Decisions on a block\<close>

lemma findIndex_None_iff: "findIndex P xs = None \<longleftrightarrow> (\<forall>x\<in>set xs. \<not> P x)"
  by (induction xs) auto

lemma findIndex_Some:
  "findIndex P xs = Some i \<Longrightarrow> i < length xs \<and> P (xs ! i) \<and> (\<forall>j<i. \<not> P (xs ! j))"
proof (induction xs arbitrary: i)
  case Nil
  then show ?case by simp
next
  case (Cons x xs)
  show ?case
  proof (cases "P x")
    case True
    with Cons.prems show ?thesis by simp
  next
    case False
    with Cons.prems obtain i' where i': "findIndex P xs = Some i'" "i = Suc i'" by auto
    from Cons.IH[OF i'(1)] False i'(2) show ?thesis
      by (auto simp: less_Suc_eq_0_disj)
  qed
qed

lemma decide_fold_entries:
  assumes "\<forall>r\<in>set df. r < length h" and "distinct df" and "\<forall>r\<in>set b. r < length h"
  shows "entries (foldl (decide_entry d) (h, df) b) =
           map (\<lambda>r. if r \<in> set b then (h ! r)\<lparr>accepted := d\<rparr> else h ! r) df"
  using assms
proof (induction b arbitrary: h df)
  case Nil
  then show ?case by (simp add: entries_def)
next
  case (Cons x b)
  show ?case
  proof (cases "findIndex (\<lambda>change. change = x) df")
    case None
    then have nx: "x \<notin> set df" by (auto simp: findIndex_None_iff)
    have step: "decide_entry d (h, df) x = (h, df)"
      using None by (simp add: decide_entry_def)
    have "entries (foldl (decide_entry d) (h, df) b) =
            map (\<lambda>r. if r \<in> set b then (h ! r)\<lparr>accepted := d\<rparr> else h ! r) df"
      using Cons.IH[of df h] Cons.prems by simp
    also have "\<dots> = map (\<lambda>r. if r \<in> set (x # b) then (h ! r)\<lparr>accepted := d\<rparr> else h ! r) df"
      using nx by (intro map_cong) auto
    finally show ?thesis using step by simp
  next
    case (Some i)
    from findIndex_Some[OF Some] have i: "i < length df" "df ! i = x" by auto
    let ?h = "h @ [(h ! x)\<lparr>accepted := d\<rparr>]"
    let ?df = "df[i := length h]"
    have step: "decide_entry d (h, df) x = (?h, ?df)"
      using Some i by (simp add: decide_entry_def)
    have fresh: "length h \<notin> set df" using Cons.prems(1) by auto
    have p1: "\<forall>r\<in>set ?df. r < length ?h"
      using Cons.prems(1) by (auto dest!: set_update_subset_insert[THEN subsetD] simp: less_Suc_eq)
    have p2: "distinct ?df"
      using Cons.prems(2) fresh by (simp add: distinct_list_update)
    have p3: "\<forall>r\<in>set b. r < length ?h"
      using Cons.prems(3) by (auto simp: less_Suc_eq)
    have IH: "entries (foldl (decide_entry d) (?h, ?df) b) =
            map (\<lambda>r. if r \<in> set b then (?h ! r)\<lparr>accepted := d\<rparr> else ?h ! r) ?df"
      using Cons.IH[OF p1 p2 p3] .
    have "map (\<lambda>r. if r \<in> set b then (?h ! r)\<lparr>accepted := d\<rparr> else ?h ! r) ?df =
          map (\<lambda>r. if r \<in> set (x # b) then (h ! r)\<lparr>accepted := d\<rparr> else h ! r) df"
    proof (rule nth_equalityI)
      show "length (map (\<lambda>r. if r \<in> set b then (?h ! r)\<lparr>accepted := d\<rparr> else ?h ! r) ?df) =
            length (map (\<lambda>r. if r \<in> set (x # b) then (h ! r)\<lparr>accepted := d\<rparr> else h ! r) df)"
        by simp
    next
      fix j assume "j < length (map (\<lambda>r. if r \<in> set b then (?h ! r)\<lparr>accepted := d\<rparr> else ?h ! r) ?df)"
      then have j: "j < length df" by simp
      show "map (\<lambda>r. if r \<in> set b then (?h ! r)\<lparr>accepted := d\<rparr> else ?h ! r) ?df ! j =
            map (\<lambda>r. if r \<in> set (x # b) then (h ! r)\<lparr>accepted := d\<rparr> else h ! r) df ! j"
      proof (cases "j = i")
        case True
        have "length h \<notin> set b" using Cons.prems(3) by auto
        with True j i show ?thesis by simp
      next
        case False
        have lt: "df ! j < length h" using Cons.prems(1) j by auto
        have "df ! j \<noteq> x" using False i j Cons.prems(2) by (auto simp: nth_eq_iff_index_eq)
        with False j lt show ?thesis by (simp add: nth_append)
      qed
    qed
    with IH step show ?thesis by simp
  qed
qed

text \<open>
  C3. The changes A (neutral), B (removed), C (added), all in one block: accepting the block
  commits \<open>AC\<close>, rejecting it commits \<open>AB\<close>. The same holds when the neutral entry is a
  block of its own and the block of B and C is the one decided.
\<close>

theorem block_decision_scenario:
  "buildContentFromDiff (entries (acceptBlock [[0, 1, 2]] 0
     (initial_diff [\<lparr>value_text = ''A'', added = False, removed = False\<rparr>,
                    \<lparr>value_text = ''B'', added = False, removed = True\<rparr>,
                    \<lparr>value_text = ''C'', added = True, removed = False\<rparr>]))) = ''AC''
   \<and> buildContentFromDiff (entries (rejectBlock [[0, 1, 2]] 0
     (initial_diff [\<lparr>value_text = ''A'', added = False, removed = False\<rparr>,
                    \<lparr>value_text = ''B'', added = False, removed = True\<rparr>,
                    \<lparr>value_text = ''C'', added = True, removed = False\<rparr>]))) = ''AB''
   \<and> snd (initial_diff [\<lparr>value_text = ''A'', added = False, removed = False\<rparr>,
                    \<lparr>value_text = ''B'', added = False, removed = True\<rparr>,
                    \<lparr>value_text = ''C'', added = True, removed = False\<rparr>]) = [0, 1, 2]
   \<and> buildContentFromDiff (entries (acceptBlock [[0], [1, 2]] 1
     (initial_diff [\<lparr>value_text = ''A'', added = False, removed = False\<rparr>,
                    \<lparr>value_text = ''B'', added = False, removed = True\<rparr>,
                    \<lparr>value_text = ''C'', added = True, removed = False\<rparr>]))) = ''AC''
   \<and> buildContentFromDiff (entries (rejectBlock [[0], [1, 2]] 1
     (initial_diff [\<lparr>value_text = ''A'', added = False, removed = False\<rparr>,
                    \<lparr>value_text = ''B'', added = False, removed = True\<rparr>,
                    \<lparr>value_text = ''C'', added = True, removed = False\<rparr>]))) = ''AB''"
  by (simp add: initial_diff_def acceptBlock_def rejectBlock_def decide_entry_def entries_def
        buildContentFromDiff_def content_keep_def upt_rec)

text \<open>
  C4, as stated, fails: in the block of A (neutral), B (removed) and C (added), accepting
  the block leaves the removed entry B with the decision true, not false, and changes the
  decision of the neutral entry A from undecided to true.
\<close>

theorem acceptBlock_roles_counterexample:
  "removed (entries (initial_diff [\<lparr>value_text = ''A'', added = False, removed = False\<rparr>,
                    \<lparr>value_text = ''B'', added = False, removed = True\<rparr>,
                    \<lparr>value_text = ''C'', added = True, removed = False\<rparr>]) ! 1)
   \<and> accepted (entries (acceptBlock [[0, 1, 2]] 0
        (initial_diff [\<lparr>value_text = ''A'', added = False, removed = False\<rparr>,
                    \<lparr>value_text = ''B'', added = False, removed = True\<rparr>,
                    \<lparr>value_text = ''C'', added = True, removed = False\<rparr>])) ! 1) \<noteq> Some False
   \<and> \<not> added (entries (initial_diff [\<lparr>value_text = ''A'', added = False, removed = False\<rparr>,
                    \<lparr>value_text = ''B'', added = False, removed = True\<rparr>,
                    \<lparr>value_text = ''C'', added = True, removed = False\<rparr>]) ! 0)
   \<and> \<not> removed (entries (initial_diff [\<lparr>value_text = ''A'', added = False, removed = False\<rparr>,
                    \<lparr>value_text = ''B'', added = False, removed = True\<rparr>,
                    \<lparr>value_text = ''C'', added = True, removed = False\<rparr>]) ! 0)
   \<and> accepted (entries (acceptBlock [[0, 1, 2]] 0
        (initial_diff [\<lparr>value_text = ''A'', added = False, removed = False\<rparr>,
                    \<lparr>value_text = ''B'', added = False, removed = True\<rparr>,
                    \<lparr>value_text = ''C'', added = True, removed = False\<rparr>])) ! 0)
       \<noteq> accepted (entries (initial_diff [\<lparr>value_text = ''A'', added = False, removed = False\<rparr>,
                    \<lparr>value_text = ''B'', added = False, removed = True\<rparr>,
                    \<lparr>value_text = ''C'', added = True, removed = False\<rparr>]) ! 0)"
  by (simp add: initial_diff_def acceptBlock_def decide_entry_def entries_def upt_rec)

text \<open>
  C4, amended. Accepting a block gives every entry of the block the decision true, whatever
  its role (added, removed or neutral), changes nothing else of these entries, and leaves
  the entries outside the block as they were. The diff of distinct objects and the block
  refer to objects of the store. It is the accept-all operation, on the whole diff, that
  sets added entries to true, removed entries to false and leaves neutral entries alone.
\<close>

theorem acceptBlock_sets_true:
  assumes "blockIndex < length changeBlocks"
    and "\<forall>r\<in>set diff. r < length h"
    and "distinct diff"
    and "\<forall>r\<in>set (changeBlocks ! blockIndex). r < length h"
  shows "entries (acceptBlock changeBlocks blockIndex (h, diff)) =
           map (\<lambda>r. if r \<in> set (changeBlocks ! blockIndex)
                     then (h ! r)\<lparr>accepted := Some True\<rparr> else h ! r) diff
         \<and> handleAcceptAll_updatedDiff xs =
             map (\<lambda>c. c\<lparr>accepted := if added c then Some True
                                      else if removed c then Some False
                                      else accepted c\<rparr>) xs"
  using assms decide_fold_entries[of diff h "changeBlocks ! blockIndex" "Some True"]
  by (simp add: acceptBlock_def handleAcceptAll_updatedDiff_def)

theorem acceptBlock_sets_true_witness:
  "(1::nat) < length [[0::nat], [1, 2]]
   \<and> list_all (\<lambda>r. r < length
         [\<lparr>value_text = ''A'', added = False, removed = False, accepted = None\<rparr>,
          \<lparr>value_text = ''B'', added = False, removed = True, accepted = None\<rparr>,
          \<lparr>value_text = ''C'', added = True, removed = False, accepted = None\<rparr>])
        [0, 1, 2 :: nat]
   \<and> distinct [0, 1, 2 :: nat]
   \<and> map accepted (entries (acceptBlock [[0], [1, 2]] 1
         ([\<lparr>value_text = ''A'', added = False, removed = False, accepted = None\<rparr>,
           \<lparr>value_text = ''B'', added = False, removed = True, accepted = None\<rparr>,
           \<lparr>value_text = ''C'', added = True, removed = False, accepted = None\<rparr>],
          [0, 1, 2]))) = [None, Some True, Some True]"
proof -
  let ?h = "[\<lparr>value_text = ''A'', added = False, removed = False, accepted = None\<rparr>,
          \<lparr>value_text = ''B'', added = False, removed = True, accepted = None\<rparr>,
          \<lparr>value_text = ''C'', added = True, removed = False, accepted = None\<rparr>]"
  have h1: "(1::nat) < length [[0::nat], [1, 2]]" by simp
  have h2: "\<forall>r\<in>set [0, 1, 2 :: nat]. r < length ?h" by simp
  have h3: "distinct [0, 1, 2 :: nat]" by simp
  have h4: "\<forall>r\<in>set ([[0::nat], [1, 2]] ! 1). r < length ?h" by simp
  show ?thesis
    using h1 h2 h3 acceptBlock_sets_true [OF h1 h2 h3 h4] by simp
qed

subsection \<open>Decisions on neutral entries\<close>

text \<open>
  C10. Two decision assignments on one change sequence that differ only in the decisions
  of neutral entries give the same committed content, the same preview and the same
  original view.
\<close>

theorem neutral_decisions_noninterference:
  assumes "list_all2 (\<lambda>a b. value_text a = value_text b \<and> added a = added b
                           \<and> removed a = removed b
                           \<and> (added a \<or> removed a \<longrightarrow> accepted a = accepted b)) xs ys"
  shows "buildContentFromDiff xs = buildContentFromDiff ys
         \<and> buildPreviewResultFromDiff xs = buildPreviewResultFromDiff ys
         \<and> originalContent xs = originalContent ys"
  using assms
  by (induction rule: list_all2_induct)
     (auto simp: buildContentFromDiff_def buildPreviewResultFromDiff_def originalContent_def
        content_keep_def preview_keep_def)

theorem neutral_decisions_noninterference_witness:
  "list_all2 (\<lambda>a b. value_text a = value_text b \<and> added a = added b
                           \<and> removed a = removed b
                           \<and> (added a \<or> removed a \<longrightarrow> accepted a = accepted b))
     [\<lparr>value_text = ''A'', added = False, removed = False, accepted = Some True\<rparr>,
      \<lparr>value_text = ''B'', added = False, removed = True, accepted = Some False\<rparr>]
     [\<lparr>value_text = ''A'', added = False, removed = False, accepted = None\<rparr>,
      \<lparr>value_text = ''B'', added = False, removed = True, accepted = Some False\<rparr>]
   \<and> buildContentFromDiff
        [\<lparr>value_text = ''A'', added = False, removed = False, accepted = Some True\<rparr>,
         \<lparr>value_text = ''B'', added = False, removed = True, accepted = Some False\<rparr>]
      = buildContentFromDiff
        [\<lparr>value_text = ''A'', added = False, removed = False, accepted = None\<rparr>,
         \<lparr>value_text = ''B'', added = False, removed = True, accepted = Some False\<rparr>]"
proof -
  have h: "list_all2 (\<lambda>a b. value_text a = value_text b \<and> added a = added b
                           \<and> removed a = removed b
                           \<and> (added a \<or> removed a \<longrightarrow> accepted a = accepted b))
     [\<lparr>value_text = ''A'', added = False, removed = False, accepted = Some True\<rparr>,
      \<lparr>value_text = ''B'', added = False, removed = True, accepted = Some False\<rparr>]
     [\<lparr>value_text = ''A'', added = False, removed = False, accepted = None\<rparr>,
      \<lparr>value_text = ''B'', added = False, removed = True, accepted = Some False\<rparr>]"
    by simp
  show ?thesis
    using h neutral_decisions_noninterference [OF h] by simp
qed

section \<open>Properties of the streamer\<close>

subsection \<open>The search for a block\<close>

lemma all_tool_names: "t \<in> set tagNames"
  by (cases t) (simp_all add: tagNames_def)

lemma prefix_append_short: "prefix p (a @ b) \<Longrightarrow> length p \<le> length a \<Longrightarrow> prefix p a"
  by (metis prefix_length_prefix prefix_def)

lemma close_tag_nonempty: "close_tag tag \<noteq> []" "open_tag tag \<noteq> []"
  by (simp_all add: close_tag_def open_tag_def)

text \<open>One attempt of the expression, as a decomposition of the text.\<close>

lemma match_tag_here_Some_iff:
  "match_tag_here tag s = Some (body, len) \<longleftrightarrow>
     (\<exists>rest. s = open_tag tag @ body @ close_tag tag @ rest
        \<and> (\<forall>k<length body. \<not> prefix (close_tag tag) (drop k (body @ close_tag tag)))
        \<and> len = length (open_tag tag) + length body + length (close_tag tag))"
  (is "?L \<longleftrightarrow> ?R")
proof
  assume ?L
  let ?r = "drop (length (open_tag tag)) s"
  from \<open>?L\<close> have p: "prefix (open_tag tag) s"
    and len: "len = length (open_tag tag) + length body + length (close_tag tag)"
    and io: "index_of (close_tag tag) ?r = Some (length body)"
    and b: "body = take (length body) ?r"
    using match_tag_here_Some by blast+
  from io have c: "prefix (close_tag tag) (drop (length body) ?r)"
    and first: "\<forall>j<length body. \<not> prefix (close_tag tag) (drop j ?r)"
    by (simp_all add: index_of_Some_iff)
  from c obtain rest where rest: "drop (length body) ?r = close_tag tag @ rest"
    by (auto simp: prefix_def)
  have "take (length body) ?r @ drop (length body) ?r = body @ close_tag tag @ rest"
    using b rest by simp
  then have r: "?r = body @ close_tag tag @ rest"
    by (simp only: append_take_drop_id)
  from p have s: "s = open_tag tag @ ?r"
    by (auto simp: prefix_def)
  have "\<forall>k<length body. \<not> prefix (close_tag tag) (drop k (body @ close_tag tag))"
  proof (intro allI impI notI)
    fix k assume k: "k < length body" and pk: "prefix (close_tag tag) (drop k (body @ close_tag tag))"
    then have "prefix (close_tag tag) (drop k (body @ close_tag tag) @ rest)"
      using prefix_prefix by blast 
    then have "prefix (close_tag tag) (drop k ?r)" using r k by simp
    with first k show False by blast
  qed
  with s r len show ?R by auto
next
  assume ?R
  then obtain rest where s: "s = open_tag tag @ body @ close_tag tag @ rest"
    and first: "\<forall>k<length body. \<not> prefix (close_tag tag) (drop k (body @ close_tag tag))"
    and len: "len = length (open_tag tag) + length body + length (close_tag tag)"
    by blast
  have r: "drop (length (open_tag tag)) s = body @ close_tag tag @ rest" using s by simp
  have "index_of (close_tag tag) (body @ close_tag tag @ rest) = Some (length body)"
  proof (subst index_of_Some_iff, intro conjI allI impI notI)
    fix j assume j: "j < length body" and pj: "prefix (close_tag tag) (drop j (body @ close_tag tag @ rest))"
    have "drop j (body @ close_tag tag @ rest) = drop j (body @ close_tag tag) @ rest"
      using j by simp
    moreover have "length (close_tag tag) \<le> length (drop j (body @ close_tag tag))"
      using j by simp
    ultimately have "prefix (close_tag tag) (drop j (body @ close_tag tag))"
      using pj prefix_append_short by metis
    with first j show False by blast
  qed simp_all
  with s r len show ?L by (simp add: match_tag_here_def)
qed

lemma match_tag_here_None_iff:
  "match_tag_here tag s = None \<longleftrightarrow>
     \<not> (\<exists>body rest. s = open_tag tag @ body @ close_tag tag @ rest)"
  (is "?L \<longleftrightarrow> ?R")
proof
  assume ?L
  show ?R
  proof
    assume "\<exists>body rest. s = open_tag tag @ body @ close_tag tag @ rest"
    then obtain body rest where s: "s = open_tag tag @ body @ close_tag tag @ rest" by blast
    then have "prefix (close_tag tag) (drop (length body) (drop (length (open_tag tag)) s))"
      by simp
    moreover have "length body \<le> length (drop (length (open_tag tag)) s)" using s by simp
    ultimately have "index_of (close_tag tag) (drop (length (open_tag tag)) s) \<noteq> None"
      unfolding index_of_None_iff by blast
    with s \<open>?L\<close> show False by (auto simp: match_tag_here_def split: option.splits)
  qed
next
  assume ?R
  show ?L
  proof (rule ccontr)
    assume "match_tag_here tag s \<noteq> None"
    then obtain body len where "match_tag_here tag s = Some (body, len)" by auto
    then have "\<exists>rest. s = open_tag tag @ body @ close_tag tag @ rest"
      unfolding match_tag_here_Some_iff by blast
    with \<open>?R\<close> show False by blast
  qed
qed

lemma findCompleteBlock_None_iff:
  "findCompleteBlock buf = None \<longleftrightarrow>
     \<not> (\<exists>pre t body post. buf = pre @ open_tag (tag_text t) @ body @ close_tag (tag_text t) @ post)"
  (is "?L \<longleftrightarrow> ?R")
proof -
  have "?L \<longleftrightarrow> (\<forall>j\<le>length buf. \<forall>t. match_tag_here (tag_text t) (drop j buf) = None)"
  proof -
    have "?L \<longleftrightarrow> regex_search (match_alternatives tagNames) buf = None"
      by (auto simp: findCompleteBlock_def split: option.splits)
    then show ?thesis
      by (simp add: regex_search_None_iff match_alternatives_None Ball_def all_tool_names)
  qed
  also have "\<dots> \<longleftrightarrow> ?R"
  proof
    assume a: "\<forall>j\<le>length buf. \<forall>t. match_tag_here (tag_text t) (drop j buf) = None"
    show ?R
    proof
      assume "\<exists>pre t body post. buf = pre @ open_tag (tag_text t) @ body @ close_tag (tag_text t) @ post"
      then obtain pre t body post where
        b: "buf = pre @ open_tag (tag_text t) @ body @ close_tag (tag_text t) @ post" by blast
      then have "drop (length pre) buf = open_tag (tag_text t) @ body @ close_tag (tag_text t) @ post"
        by simp
      then have "\<exists>body rest. drop (length pre) buf
          = open_tag (tag_text t) @ body @ close_tag (tag_text t) @ rest"
        by (intro exI)
      then have m: "match_tag_here (tag_text t) (drop (length pre) buf) \<noteq> None"
        by (simp only: match_tag_here_None_iff not_not)
      have "length pre \<le> length buf" by (subst b) simp
      then have "match_tag_here (tag_text t) (drop (length pre) buf) = None"
        using a by (simp only:)
      with m show False by (rule notE)
    qed
  next
    assume r: ?R
    show "\<forall>j\<le>length buf. \<forall>t. match_tag_here (tag_text t) (drop j buf) = None"
    proof (intro allI impI)
      fix j t assume "j \<le> length buf"
      show "match_tag_here (tag_text t) (drop j buf) = None"
        unfolding match_tag_here_None_iff
      proof
        assume "\<exists>body rest. drop j buf = open_tag (tag_text t) @ body @ close_tag (tag_text t) @ rest"
        then obtain body rest where
          "drop j buf = open_tag (tag_text t) @ body @ close_tag (tag_text t) @ rest" by blast
        then have "take j buf @ drop j buf
            = take j buf @ open_tag (tag_text t) @ body @ close_tag (tag_text t) @ rest"
          by (simp only:)
        then have "buf = take j buf @ open_tag (tag_text t) @ body @ close_tag (tag_text t) @ rest"
          by (simp only: append_take_drop_id)
        then have "\<exists>pre t body post.
            buf = pre @ open_tag (tag_text t) @ body @ close_tag (tag_text t) @ post"
          by (intro exI)
        with r show False by (rule notE)
      qed
    qed
  qed
  finally show ?thesis .
qed

lemma findCompleteBlock_Some_iff:
  "findCompleteBlock buf = Some info \<longleftrightarrow>
     (\<exists>pre body post.
        buf = pre @ open_tag (tag_text (toolName info)) @ body
                @ close_tag (tag_text (toolName info)) @ post
        \<and> block info = open_tag (tag_text (toolName info)) @ body
                @ close_tag (tag_text (toolName info))
        \<and> endIdx info = length pre + length (block info)
        \<and> (\<forall>k<length body. \<not> prefix (close_tag (tag_text (toolName info)))
                                  (drop k (body @ close_tag (tag_text (toolName info)))))
        \<and> (\<forall>j<length pre. match_alternatives tagNames (drop j buf) = None)
        \<and> match_alternatives tagNames (drop (length pre) buf)
             = Some (toolName info, length (block info)))"
  (is "?L \<longleftrightarrow> ?R")
proof
  assume ?L
  then obtain i t len where rs: "regex_search (match_alternatives tagNames) buf = Some (i, (t, len))"
    and info: "info = \<lparr>block = take len (drop i buf), toolName = t, endIdx = i + len\<rparr>"
    by (auto simp: findCompleteBlock_def split: option.splits)
  from rs have i: "i \<le> length buf" and m: "match_alternatives tagNames (drop i buf) = Some (t, len)"
    and e: "\<forall>j<i. match_alternatives tagNames (drop j buf) = None"
    by (simp_all add: regex_search_Some_iff)
  from m obtain body where "match_tag_here (tag_text t) (drop i buf) = Some (body, len)"
    using match_alternatives_Some by blast
  then obtain post where d: "drop i buf = open_tag (tag_text t) @ body @ close_tag (tag_text t) @ post"
    and first: "\<forall>k<length body. \<not> prefix (close_tag (tag_text t)) (drop k (body @ close_tag (tag_text t)))"
    and len: "len = length (open_tag (tag_text t)) + length body + length (close_tag (tag_text t))"
    unfolding match_tag_here_Some_iff by blast
  obtain pre where pre: "pre = take i buf" by blast
  have lp: "length pre = i" using i pre by simp
  have "take i buf @ drop i buf
      = pre @ open_tag (tag_text t) @ body @ close_tag (tag_text t) @ post"
    by (simp only: d pre)
  then have b: "buf = pre @ open_tag (tag_text t) @ body @ close_tag (tag_text t) @ post"
    by (simp only: append_take_drop_id)
  have blk: "take len (drop i buf) = open_tag (tag_text t) @ body @ close_tag (tag_text t)"
    using d len by simp
  have c1: "toolName info = t" and c2: "block info = open_tag (tag_text t) @ body @ close_tag (tag_text t)"
    and c3: "endIdx info = i + len"
    using info blk by simp_all
  have c4: "len = length (block info)" using c2 len by simp
  have "buf = pre @ open_tag (tag_text (toolName info)) @ body
                @ close_tag (tag_text (toolName info)) @ post
        \<and> block info = open_tag (tag_text (toolName info)) @ body
                @ close_tag (tag_text (toolName info))
        \<and> endIdx info = length pre + length (block info)
        \<and> (\<forall>k<length body. \<not> prefix (close_tag (tag_text (toolName info)))
                                  (drop k (body @ close_tag (tag_text (toolName info)))))
        \<and> (\<forall>j<length pre. match_alternatives tagNames (drop j buf) = None)
        \<and> match_alternatives tagNames (drop (length pre) buf)
             = Some (toolName info, length (block info))"
    unfolding c1 lp using b c2 c3 c4 first e m by blast
  then show ?R by blast
next
  assume ?R
  then obtain pre body post where
    b: "buf = pre @ open_tag (tag_text (toolName info)) @ body @ close_tag (tag_text (toolName info)) @ post"
    and blk: "block info = open_tag (tag_text (toolName info)) @ body @ close_tag (tag_text (toolName info))"
    and e: "endIdx info = length pre + length (block info)"
    and none: "\<forall>j<length pre. match_alternatives tagNames (drop j buf) = None"
    and m: "match_alternatives tagNames (drop (length pre) buf) = Some (toolName info, length (block info))"
    by blast
  have "length pre \<le> length buf" by (subst b) simp
  with none m have rs: "regex_search (match_alternatives tagNames) buf
      = Some (length pre, (toolName info, length (block info)))"
    unfolding regex_search_Some_iff by blast
  have "drop (length pre) buf = block info @ post"
    by (subst b) (simp add: blk)
  then have tk: "take (length (block info)) (drop (length pre) buf) = block info"
    by simp
  show ?L unfolding findCompleteBlock_def rs using tk e by simp
qed

subsection \<open>The buffer after a call\<close>

declare process_blocks.simps [simp del]

lemma process_blocks_None:
  "findCompleteBlock buffer = None \<Longrightarrow> process_blocks e chunk buffer w = ([Scan buffer], buffer, w)"
  by (subst process_blocks.simps) simp

lemma process_blocks_Some:
  "findCompleteBlock buffer = Some info \<Longrightarrow>
   process_blocks e chunk buffer w =
     (case dispatch e (toolName info) (block_args (toolName info) (block info)) w of
        (calls, outcome, w') \<Rightarrow>
          (case process_blocks e chunk (drop (endIdx info) buffer) w' of
             (events, st) \<Rightarrow>
               (Scan buffer # map (\<lambda>(t, a). Call t a) calls
                  @ Yield (chunk\<lparr>content := ContentString (result_text outcome)\<rparr>)
                  # events, st)))"
  by (subst process_blocks.simps) simp

lemma process_blocks_final_buffer:
  fixes chunk :: "'m chunk_scheme"
  shows "findCompleteBlock (fst (snd (process_blocks e chunk buffer w))) = None
   \<and> suffix (fst (snd (process_blocks e chunk buffer w))) buffer"
proof (induction e chunk buffer w rule: process_blocks.induct)
  case (1 e chunk buffer w)
  show ?case
  proof (cases "findCompleteBlock buffer")
    case None
    then show ?thesis by (simp add: process_blocks_None)
  next
    case (Some info)
    obtain calls outcome w' where d:
      "dispatch e (toolName info) (block_args (toolName info) (block info)) w = (calls, outcome, w')"
      by (metis prod_cases3)
    obtain events st where r:
      "process_blocks e chunk (drop (endIdx info) buffer) w' = (events, st)"
      by (metis surj_pair)
    from "1.IH"[OF Some d[symmetric] refl] r
    have "findCompleteBlock (fst st) = None" "suffix (fst st) (drop (endIdx info) buffer)"
      by simp_all
    moreover have "suffix (drop (endIdx info) buffer) buffer" by (rule suffix_drop)
    ultimately show ?thesis
      using Some d r by (auto simp: process_blocks_Some intro: suffix_order.trans)
  qed
qed

subsection \<open>The block found\<close>

lemma first_close_not_sublist:
  assumes "\<forall>k<length body. \<not> prefix c (drop k (body @ c))" and "c \<noteq> []"
  shows "\<not> sublist c body"
proof
  assume "sublist c body"
  then obtain ps ss where b: "body = ps @ c @ ss" by (auto simp: sublist_def)
  have "length ps < length body" using b assms(2) by simp
  moreover have "prefix c (drop (length ps) (body @ c))" by (simp add: b)
  ultimately show False using assms(1) by blast
qed

lemma match_alternatives_None_iff_pairs:
  "match_alternatives tagNames s = None \<longleftrightarrow>
     \<not> (\<exists>t body rest. s = open_tag (tag_text t) @ body @ close_tag (tag_text t) @ rest)"
  by (simp add: match_alternatives_None Ball_def all_tool_names match_tag_here_None_iff)

text \<open>
  C8. A block returned by \<open>findCompleteBlock\<close> opens and closes with the same recognised
  tag name, its closing tag is the first one of that name behind the opening tag (no closing
  tag of the name begins inside the body, and the body contains none), it ends at
  \<open>endIdx\<close>, and no complete pair begins before it. A buffer with a complete recognised
  pair gives a block; a buffer without one gives none.
\<close>

theorem findCompleteBlock_shortest_span:
  "(findCompleteBlock buf = Some info \<longrightarrow>
      (\<exists>pre body post.
         buf = pre @ open_tag (tag_text (toolName info)) @ body
                 @ close_tag (tag_text (toolName info)) @ post
         \<and> toolName info \<in> set tagNames
         \<and> block info = open_tag (tag_text (toolName info)) @ body
                 @ close_tag (tag_text (toolName info))
         \<and> endIdx info = length pre + length (block info)
         \<and> (\<forall>k<length body. \<not> prefix (close_tag (tag_text (toolName info)))
                                   (drop k (body @ close_tag (tag_text (toolName info)))))
         \<and> \<not> sublist (close_tag (tag_text (toolName info))) body
         \<and> (\<forall>j<length pre. \<not> (\<exists>t body' rest.
                drop j buf = open_tag (tag_text t) @ body' @ close_tag (tag_text t) @ rest))))
   \<and> ((\<exists>pre t body post.
          buf = pre @ open_tag (tag_text t) @ body @ close_tag (tag_text t) @ post)
        \<longrightarrow> findCompleteBlock buf \<noteq> None)
   \<and> (\<not> (\<exists>pre t body post.
          buf = pre @ open_tag (tag_text t) @ body @ close_tag (tag_text t) @ post)
        \<longrightarrow> findCompleteBlock buf = None)"
proof (intro conjI impI)
  assume "findCompleteBlock buf = Some info"
  then obtain pre body post where
    b: "buf = pre @ open_tag (tag_text (toolName info)) @ body
                @ close_tag (tag_text (toolName info)) @ post"
    and blk: "block info = open_tag (tag_text (toolName info)) @ body
                @ close_tag (tag_text (toolName info))"
    and e: "endIdx info = length pre + length (block info)"
    and first: "\<forall>k<length body. \<not> prefix (close_tag (tag_text (toolName info)))
                                  (drop k (body @ close_tag (tag_text (toolName info))))"
    and none: "\<forall>j<length pre. match_alternatives tagNames (drop j buf) = None"
    unfolding findCompleteBlock_Some_iff by blast
  have ns: "\<not> sublist (close_tag (tag_text (toolName info))) body"
    using first_close_not_sublist[OF first] by (simp add: close_tag_def)
  have early: "\<forall>j<length pre. \<not> (\<exists>t body' rest.
                drop j buf = open_tag (tag_text t) @ body' @ close_tag (tag_text t) @ rest)"
    using none by (simp only: match_alternatives_None_iff_pairs)
  show "\<exists>pre body post.
         buf = pre @ open_tag (tag_text (toolName info)) @ body
                 @ close_tag (tag_text (toolName info)) @ post
         \<and> toolName info \<in> set tagNames
         \<and> block info = open_tag (tag_text (toolName info)) @ body
                 @ close_tag (tag_text (toolName info))
         \<and> endIdx info = length pre + length (block info)
         \<and> (\<forall>k<length body. \<not> prefix (close_tag (tag_text (toolName info)))
                                   (drop k (body @ close_tag (tag_text (toolName info)))))
         \<and> \<not> sublist (close_tag (tag_text (toolName info))) body
         \<and> (\<forall>j<length pre. \<not> (\<exists>t body' rest.
                drop j buf = open_tag (tag_text t) @ body' @ close_tag (tag_text t) @ rest))"
    apply (rule exI[of _ pre], rule exI[of _ body], rule exI[of _ post])
    using b blk e first ns early all_tool_names by (intro conjI)
next
  assume "\<exists>pre t body post.
          buf = pre @ open_tag (tag_text t) @ body @ close_tag (tag_text t) @ post"
  then show "findCompleteBlock buf \<noteq> None"
    by (simp only: findCompleteBlock_None_iff not_not)
next
  assume "\<not> (\<exists>pre t body post.
          buf = pre @ open_tag (tag_text t) @ body @ close_tag (tag_text t) @ post)"
  then show "findCompleteBlock buf = None"
    by (simp only: findCompleteBlock_None_iff not_False_eq_True)
qed


theorem findCompleteBlock_shortest_span_witness:
  "findCompleteBlock ''<a>x</a><writeToFile>y</writeToFile><b>z</b>''
     = Some \<lparr>block = ''<writeToFile>y</writeToFile>'', toolName = writeToFile, endIdx = 36\<rparr>
   \<and> (\<exists>pre body post.
         ''<a>x</a><writeToFile>y</writeToFile><b>z</b>''
           = pre @ open_tag (tag_text writeToFile) @ body @ close_tag (tag_text writeToFile) @ post
         \<and> ''<writeToFile>y</writeToFile>''
           = open_tag (tag_text writeToFile) @ body @ close_tag (tag_text writeToFile)
         \<and> 36 = length pre + length ''<writeToFile>y</writeToFile>''
         \<and> \<not> sublist (close_tag (tag_text writeToFile)) body)
   \<and> findCompleteBlock ''<a>x</a><writeToFile>y</writeToFile><b>z</b>'' \<noteq> None"
proof -
  let ?buf = "''<a>x</a><writeToFile>y</writeToFile><b>z</b>''"
  let ?info = "\<lparr>block = ''<writeToFile>y</writeToFile>'', toolName = writeToFile, endIdx = 36\<rparr>"
  have h: "findCompleteBlock ?buf = Some ?info"
    by code_simp
  have h2: "\<exists>pre t body post.
      ?buf = pre @ open_tag (tag_text t) @ body @ close_tag (tag_text t) @ post"
  proof (intro exI)
    show "?buf = ''<a>x</a>'' @ open_tag (tag_text writeToFile) @ ''y''
             @ close_tag (tag_text writeToFile) @ ''<b>z</b>''"
      by (simp add: open_tag_def close_tag_def)
  qed
  note t = findCompleteBlock_shortest_span [of ?buf ?info]
  from t h have "\<exists>pre body post.
         ?buf = pre @ open_tag (tag_text (toolName ?info)) @ body
                 @ close_tag (tag_text (toolName ?info)) @ post
         \<and> block ?info = open_tag (tag_text (toolName ?info)) @ body
                 @ close_tag (tag_text (toolName ?info))
         \<and> endIdx ?info = length pre + length (block ?info)
         \<and> \<not> sublist (close_tag (tag_text (toolName ?info))) body"
    by blast
  then have "\<exists>pre body post.
         ?buf = pre @ open_tag (tag_text writeToFile) @ body
                 @ close_tag (tag_text writeToFile) @ post
         \<and> ''<writeToFile>y</writeToFile>'' = open_tag (tag_text writeToFile) @ body
                 @ close_tag (tag_text writeToFile)
         \<and> 36 = length pre + length ''<writeToFile>y</writeToFile>''
         \<and> \<not> sublist (close_tag (tag_text writeToFile)) body"
    by simp
  moreover from t h2 have "findCompleteBlock ?buf \<noteq> None" by blast
  ultimately show ?thesis using h by blast
qed

subsection \<open>The order of emission\<close>

lemma dispatch_calls:
  "fst (dispatch e t a w) = [] \<or> fst (dispatch e t a w) = [(t, a)]"
  by (auto simp: dispatch_def split: option.splits sum.splits prod.splits)


lemma process_blocks_unfold:
  assumes "findCompleteBlock buffer = Some info"
  shows "process_blocks e chunk buffer w =
     (Scan buffer
        # map (\<lambda>(t, a). Call t a)
            (fst (dispatch e (toolName info) (block_args (toolName info) (block info)) w))
        @ Yield (chunk\<lparr>content := ContentString (result_text
            (fst (snd (dispatch e (toolName info) (block_args (toolName info) (block info)) w))))\<rparr>)
        # fst (process_blocks e chunk (drop (endIdx info) buffer)
            (snd (snd (dispatch e (toolName info) (block_args (toolName info) (block info)) w)))),
      snd (process_blocks e chunk (drop (endIdx info) buffer)
            (snd (snd (dispatch e (toolName info) (block_args (toolName info) (block info)) w)))))"
  by (simp add: process_blocks_Some[OF assms] split: prod.splits)

lemma trace_step:
  assumes "Scan buffer # map (\<lambda>(t, a). Call t a) calls @ Yield y0 # evs = pre @ Scan b # post"
    and "calls = [] \<or> calls = [(t, a)]"
  shows "(pre = [] \<and> b = buffer \<and> post = map (\<lambda>(t, a). Call t a) calls @ Yield y0 # evs)
         \<or> (\<exists>pre'. pre = Scan buffer # map (\<lambda>(t, a). Call t a) calls @ Yield y0 # pre'
                \<and> evs = pre' @ Scan b # post)"
  using assms by (auto simp: Cons_eq_append_conv)

lemma process_blocks_order:
  assumes "fst (process_blocks e chunk buffer w) = pre @ Scan b # post"
  shows "(pre = [] \<or> (\<exists>pre' y. pre = pre' @ [Yield y]))
         \<and> (findCompleteBlock b = None \<longrightarrow> post = [])
         \<and> (findCompleteBlock b \<noteq> None \<longrightarrow>
              (\<exists>txt post'. post = Yield (chunk\<lparr>content := ContentString txt\<rparr>) # post'
                 \<or> (\<exists>t a. post = Call t a # Yield (chunk\<lparr>content := ContentString txt\<rparr>) # post')))"
  using assms
proof (induction e chunk buffer w arbitrary: pre rule: process_blocks.induct)
  case (1 e chunk buffer w)
  show ?case
  proof (cases "findCompleteBlock buffer")
    case None
    with "1.prems" have "[Scan buffer] = pre @ Scan b # post"
      by (simp add: process_blocks_None)
    then have "pre = []" "b = buffer" "post = []"
      by (auto simp: Cons_eq_append_conv)
    with None show ?thesis by simp
  next
    case (Some info)
    let ?d = "dispatch e (toolName info) (block_args (toolName info) (block info)) w"
    let ?y = "Yield (chunk\<lparr>content := ContentString (result_text (fst (snd ?d)))\<rparr>)"
    let ?evs = "fst (process_blocks e chunk (drop (endIdx info) buffer) (snd (snd ?d)))"
    have tr: "Scan buffer # map (\<lambda>(t, a). Call t a) (fst ?d) @ ?y # ?evs = pre @ Scan b # post"
      using "1.prems" by (simp add: process_blocks_unfold[OF Some])
    have calls: "fst ?d = [] \<or> fst ?d = [(toolName info, block_args (toolName info) (block info))]"
      by (rule dispatch_calls)
    from trace_step[OF tr calls]
    consider (here) "pre = []" "b = buffer" "post = map (\<lambda>(t, a). Call t a) (fst ?d) @ ?y # ?evs"
      | (later) pre' where "pre = Scan buffer # map (\<lambda>(t, a). Call t a) (fst ?d) @ ?y # pre'"
          "?evs = pre' @ Scan b # post"
      by blast
    then show ?thesis
    proof cases
      case here
      with Some calls show ?thesis by auto
    next
      case later
      have IH: "(pre' = [] \<or> (\<exists>pre'' y. pre' = pre'' @ [Yield y]))
         \<and> (findCompleteBlock b = None \<longrightarrow> post = [])
         \<and> (findCompleteBlock b \<noteq> None \<longrightarrow>
              (\<exists>txt post'. post = Yield (chunk\<lparr>content := ContentString txt\<rparr>) # post'
                 \<or> (\<exists>t a. post = Call t a # Yield (chunk\<lparr>content := ContentString txt\<rparr>) # post')))"
        by (rule "1.IH"[OF Some _ _ later(2)]) (simp_all add: prod_eq_iff)
      have "\<exists>p y. pre = p @ [Yield y]"
      proof (cases "pre' = []")
        case True
        with later(1) have "pre = (Scan buffer # map (\<lambda>(t, a). Call t a) (fst ?d)) @ [?y]" by simp
        then show ?thesis by blast
      next
        case False
        with IH obtain pre'' y where "pre' = pre'' @ [Yield y]" by blast
        with later(1) have
          "pre = (Scan buffer # map (\<lambda>(t, a). Call t a) (fst ?d) @ ?y # pre'') @ [Yield y]" by simp
        then show ?thesis by blast
      qed
      with IH show ?thesis by blast
    qed
  qed
qed

lemma process_blocks_head:
  "\<exists>rest. fst (process_blocks e chunk buffer w) = Scan buffer # rest"
proof (cases "findCompleteBlock buffer")
  case None
  then show ?thesis by (simp add: process_blocks_None)
next
  case (Some info)
  show ?thesis by (simp add: process_blocks_unfold[OF Some])
qed

lemma processChunk_trace:
  "fst (processChunk e chunk (buffer, w))
     = Yield chunk # fst (process_blocks e chunk (buffer @ chunkContent chunk) w)"
  "snd (processChunk e chunk (buffer, w))
     = snd (process_blocks e chunk (buffer @ chunkContent chunk) w)"
  by (simp_all add: processChunk_def split: prod.splits)

text \<open>
  C6. The trace of a call of \<open>processChunk\<close> begins with the chunk it was given, yielded
  as it is, before the first scan. Every scan of the buffer comes directly after a yield
  (the chunk itself, or the result chunk of the block before). A scan that finds a block is
  followed at once by the dispatch of that block, if its tool is registered, and the
  result chunk of that block, a copy of the given chunk with a text content, so that the
  result of a block is emitted before the scan for the next one; a scan that finds nothing
  ends the call.
\<close>

theorem processChunk_emission_order:
  "(\<exists>rest. fst (processChunk e chunk (buffer, w))
             = Yield chunk # Scan (buffer @ chunkContent chunk) # rest)
   \<and> (\<forall>pre b post. fst (processChunk e chunk (buffer, w)) = pre @ Scan b # post \<longrightarrow>
         (\<exists>pre' y. pre = pre' @ [Yield y])
         \<and> (findCompleteBlock b = None \<longrightarrow> post = [])
         \<and> (findCompleteBlock b \<noteq> None \<longrightarrow>
              (\<exists>txt post'.
                 post = Yield (chunk\<lparr>content := ContentString txt\<rparr>) # post'
                 \<or> (\<exists>t a. post = Call t a
                              # Yield (chunk\<lparr>content := ContentString txt\<rparr>) # post'))))"
proof (intro conjI allI impI)
  show "\<exists>rest. fst (processChunk e chunk (buffer, w))
             = Yield chunk # Scan (buffer @ chunkContent chunk) # rest"
    using process_blocks_head[of e chunk "buffer @ chunkContent chunk" w]
    by (auto simp: processChunk_trace)
next
  fix pre b post
  assume a: "fst (processChunk e chunk (buffer, w)) = pre @ Scan b # post"
  let ?tr = "fst (process_blocks e chunk (buffer @ chunkContent chunk) w)"
  from a have "Yield chunk # ?tr = pre @ Scan b # post"
    by (simp add: processChunk_trace)
  then obtain pre0 where pre: "pre = Yield chunk # pre0" and tr: "?tr = pre0 @ Scan b # post"
    by (auto simp: Cons_eq_append_conv)
  note ord = process_blocks_order[OF tr]
  show "\<exists>pre' y. pre = pre' @ [Yield y]"
  proof (cases "pre0 = []")
    case True
    with pre have "pre = [] @ [Yield chunk]" by simp
    then show ?thesis by blast
  next
    case False
    with ord obtain p y where "pre0 = p @ [Yield y]" by blast
    with pre have "pre = (Yield chunk # p) @ [Yield y]" by simp
    then show ?thesis by blast
  qed
  {
    assume "findCompleteBlock b = None"
    with ord show "post = []" by blast
  }
  {
    assume "findCompleteBlock b \<noteq> None"
    with ord show "\<exists>txt post'.
                 post = Yield (chunk\<lparr>content := ContentString txt\<rparr>) # post'
                 \<or> (\<exists>t a. post = Call t a
                              # Yield (chunk\<lparr>content := ContentString txt\<rparr>) # post')"
      by blast
  }
qed

theorem processChunk_emission_order_witness:
  "fst (processChunk
          \<lparr>tools = (\<lambda>t. Some ()), callTool = (\<lambda>tool a w. (Inr ''ok'', w)),
           format = (\<lambda>t r. Inr r)\<rparr>
          \<lparr>content = ContentString ''<deleteNote><path>a</path></deleteNote>''\<rparr> ([], ()))
     = [Yield \<lparr>content = ContentString ''<deleteNote><path>a</path></deleteNote>''\<rparr>]
       @ Scan ''<deleteNote><path>a</path></deleteNote>''
       # [Call deleteNote [(''path'', Str ''a'')],
          Yield \<lparr>content = ContentString (newline @ ''ok'' @ newline)\<rparr>, Scan []]
   \<and> findCompleteBlock ''<deleteNote><path>a</path></deleteNote>'' \<noteq> None
   \<and> (\<exists>pre' y. [Yield \<lparr>content = ContentString ''<deleteNote><path>a</path></deleteNote>''\<rparr>]
          = pre' @ [Yield y])
   \<and> (\<exists>txt post'.
         [Call deleteNote [(''path'', Str ''a'')],
          Yield \<lparr>content = ContentString (newline @ ''ok'' @ newline)\<rparr>, Scan []]
           = Yield (\<lparr>content = ContentString ''<deleteNote><path>a</path></deleteNote>''\<rparr>
                      \<lparr>content := ContentString txt\<rparr>) # post'
         \<or> (\<exists>t a. [Call deleteNote [(''path'', Str ''a'')],
                    Yield \<lparr>content = ContentString (newline @ ''ok'' @ newline)\<rparr>, Scan []]
                = Call t a
                  # Yield (\<lparr>content = ContentString ''<deleteNote><path>a</path></deleteNote>''\<rparr>
                             \<lparr>content := ContentString txt\<rparr>) # post'))"
proof -
  let ?e = "\<lparr>tools = (\<lambda>t. Some ()), callTool = (\<lambda>tool a w. (Inr ''ok'', w)),
           format = (\<lambda>t r. Inr r)\<rparr> :: (unit, string, unit) env"
  let ?c = "\<lparr>content = ContentString ''<deleteNote><path>a</path></deleteNote>''\<rparr>"
  let ?post = "[Call deleteNote [(''path'', Str ''a'')],
          Yield \<lparr>content = ContentString (newline @ ''ok'' @ newline)\<rparr>, Scan []]
          :: chunk event list"
  have h: "fst (processChunk ?e ?c ([], ()))
     = [Yield ?c] @ Scan ''<deleteNote><path>a</path></deleteNote>'' # ?post"
    by code_simp
  have f: "findCompleteBlock ''<deleteNote><path>a</path></deleteNote>'' \<noteq> None"
    by code_simp
  from processChunk_emission_order [of ?e ?c "[]" "()"]
  have "\<forall>pre b post. fst (processChunk ?e ?c ([], ())) = pre @ Scan b # post \<longrightarrow>
         (\<exists>pre' y. pre = pre' @ [Yield y])
         \<and> (findCompleteBlock b = None \<longrightarrow> post = [])
         \<and> (findCompleteBlock b \<noteq> None \<longrightarrow>
              (\<exists>txt post'.
                 post = Yield (?c\<lparr>content := ContentString txt\<rparr>) # post'
                 \<or> (\<exists>t a. post = Call t a
                              # Yield (?c\<lparr>content := ContentString txt\<rparr>) # post')))"
    by (rule conjunct2)
  from this[rule_format, OF h] f
  have "(\<exists>pre' y. [Yield ?c] = pre' @ [Yield y])
         \<and> (\<exists>txt post'.
                 ?post = Yield (?c\<lparr>content := ContentString txt\<rparr>) # post'
                 \<or> (\<exists>t a. ?post = Call t a
                              # Yield (?c\<lparr>content := ContentString txt\<rparr>) # post'))"
    by blast
  with h f show ?thesis by blast
qed

subsection \<open>A tool that is not registered\<close>



subsection \<open>Splitting the stream into chunks\<close>

lemma open_tag_unique:
  assumes "prefix (open_tag (tag_text a)) s" and "prefix (open_tag (tag_text b)) s"
  shows "a = b"
proof -
  from assms have "prefix (open_tag (tag_text a)) (open_tag (tag_text b))
      \<or> prefix (open_tag (tag_text b)) (open_tag (tag_text a))"
    by (rule prefix_same_cases)
  then show ?thesis
    by (cases a; cases b) (simp_all add: open_tag_def)
qed

lemma opens_here_iff: "opens_here s \<longleftrightarrow> (\<exists>t. prefix (open_tag (tag_text t)) s)"
  by (auto simp: opens_here_def list_ex_iff all_tool_names)

lemma opens_here_nonempty: "opens_here s \<Longrightarrow> s \<noteq> []"
  by (auto simp: opens_here_iff open_tag_def)

lemma open_positions_iff:
  "i \<in> set (open_positions s) \<longleftrightarrow> opens_here (drop i s)"
proof (cases "i < length s")
  case True
  then show ?thesis by (simp add: open_positions_def)
next
  case False
  then have "drop i s = []" by simp
  with False show ?thesis using opens_here_nonempty by (auto simp: open_positions_def)
qed

lemma prefix_drop_mono: "prefix p s \<Longrightarrow> prefix (drop i p) (drop i s)"
  by (auto simp: prefix_def)

lemma opens_here_prefix: "prefix p s \<Longrightarrow> opens_here p \<Longrightarrow> opens_here s"
  by (auto simp: opens_here_iff intro: prefix_order.trans)

lemma match_alternatives_no_open:
  "\<not> opens_here s \<Longrightarrow> match_alternatives ts s = None"
  by (simp add: match_alternatives_None match_tag_here_def opens_here_iff)

lemma findCompleteBlock_no_open:
  assumes "\<forall>i. \<not> opens_here (drop i q)"
  shows "findCompleteBlock q = None"
proof -
  have "regex_search (match_alternatives tagNames) q = None"
    unfolding regex_search_None_iff using assms match_alternatives_no_open by blast
  then show ?thesis by (simp add: findCompleteBlock_def)
qed

lemma match_alternatives_the_one:
  assumes "match_tag_here (tag_text t) s = Some (body, len)"
  shows "match_alternatives tagNames s = Some (t, len)"
proof -
  have p: "prefix (open_tag (tag_text t)) s"
    using assms by (simp add: match_tag_here_def split: if_splits)
  have other: "t' \<noteq> t \<Longrightarrow> match_tag_here (tag_text t') s = None" for t'
    using open_tag_unique[OF _ p, of t'] by (auto simp: match_tag_here_def)
  have "t \<in> set ts \<Longrightarrow> match_alternatives ts s = Some (t, len)" for ts
  proof (induction ts)
    case Nil
    then show ?case by simp
  next
    case (Cons x ts)
    show ?case
    proof (cases "x = t")
      case True
      with assms show ?thesis by simp
    next
      case False
      with Cons other[of x] show ?thesis by simp
    qed
  qed
  then show ?thesis using all_tool_names by blast
qed

lemma only_open_position:
  assumes "open_positions S = [n]"
  shows "opens_here (drop i S) \<longleftrightarrow> i = n"
proof -
  have "i \<in> set (open_positions S) \<longleftrightarrow> i = n" by (simp add: assms)
  then show ?thesis by (simp add: open_positions_iff)
qed

lemma block_found_when_complete:
  assumes S: "S = pre @ B @ post"
    and B: "B = open_tag (tag_text t) @ body @ close_tag (tag_text t)"
    and H1: "open_positions S = [length pre]"
    and H2: "index_of (close_tag (tag_text t)) (body @ close_tag (tag_text t)) = Some (length body)"
    and p: "prefix p S"
    and len: "length pre + length B \<le> length p"
  shows "findCompleteBlock p = Some \<lparr>block = B, toolName = t, endIdx = length pre + length B\<rparr>"
proof -
  from p obtain r where r: "S = p @ r" by (auto simp: prefix_def)
  have "p = take (length p) S" using r by simp
  also have "\<dots> = pre @ B @ take (length p - length pre - length B) post"
    using len by (simp add: S)
  finally obtain q where q: "p = pre @ B @ q" by blast
  have first: "\<forall>k<length body. \<not> prefix (close_tag (tag_text t)) (drop k (body @ close_tag (tag_text t)))"
    using H2 by (simp add: index_of_Some_iff)
  have none: "\<forall>j<length pre. match_alternatives tagNames (drop j p) = None"
  proof (intro allI impI)
    fix j assume "j < length pre"
    then have "\<not> opens_here (drop j S)" using only_open_position[OF H1, of j] by simp
    then have "\<not> opens_here (drop j p)"
      using opens_here_prefix[OF prefix_drop_mono[OF p, of j]] by blast
    then show "match_alternatives tagNames (drop j p) = None"
      by (rule match_alternatives_no_open)
  qed
  have d: "drop (length pre) p = open_tag (tag_text t) @ body @ close_tag (tag_text t) @ q"
    by (simp add: q B)
  have "match_tag_here (tag_text t) (drop (length pre) p) = Some (body, length B)"
    unfolding match_tag_here_Some_iff using d first by (simp add: B)
  then have m: "match_alternatives tagNames (drop (length pre) p) = Some (t, length B)"
    by (rule match_alternatives_the_one)
  show ?thesis
    unfolding findCompleteBlock_Some_iff
    apply (rule exI[of _ pre], rule exI[of _ body], rule exI[of _ q])
    using q first none m by (simp add: B)
qed

lemma no_block_before_complete:
  assumes S: "S = pre @ B @ post"
    and B: "B = open_tag (tag_text t) @ body @ close_tag (tag_text t)"
    and H1: "open_positions S = [length pre]"
    and H2: "index_of (close_tag (tag_text t)) (body @ close_tag (tag_text t)) = Some (length body)"
    and p: "prefix p S"
    and len: "length p < length pre + length B"
  shows "findCompleteBlock p = None"
proof (rule ccontr)
  assume "findCompleteBlock p \<noteq> None"
  then obtain pre' t' body' post' where
    d: "p = pre' @ open_tag (tag_text t') @ body' @ close_tag (tag_text t') @ post'"
    unfolding findCompleteBlock_None_iff by blast
  have first: "\<forall>k<length body. \<not> prefix (close_tag (tag_text t)) (drop k (body @ close_tag (tag_text t)))"
    using H2 by (simp add: index_of_Some_iff)
  from p obtain r where r: "S = p @ r" by (auto simp: prefix_def)
  have "prefix (open_tag (tag_text t')) (drop (length pre') p)" by (simp add: d)
  then have "opens_here (drop (length pre') p)" by (auto simp: opens_here_iff)
  then have "opens_here (drop (length pre') S)"
    using opens_here_prefix[OF prefix_drop_mono[OF p]] by blast
  then have lp: "length pre' = length pre" using only_open_position[OF H1] by simp
  have "take (length pre) S = pre" by (simp add: S)
  moreover have "take (length pre') S = pre'" by (simp add: r d)
  ultimately have pre': "pre' = pre" using lp by simp
  have eq: "open_tag (tag_text t') @ body' @ close_tag (tag_text t') @ post' @ r
      = open_tag (tag_text t) @ body @ close_tag (tag_text t) @ post"
    using r by (simp add: S B d pre')
  then have "open_tag (tag_text t) @ body @ close_tag (tag_text t) @ post
      = open_tag (tag_text t') @ (body' @ close_tag (tag_text t') @ post' @ r)"
    by simp
  then have "prefix (open_tag (tag_text t')) (open_tag (tag_text t) @ body @ close_tag (tag_text t) @ post)"
    by (rule prefixI)
  moreover have "prefix (open_tag (tag_text t)) (open_tag (tag_text t) @ body @ close_tag (tag_text t) @ post)"
    by simp
  ultimately have t': "t' = t" by (rule open_tag_unique)
  from eq have eq2: "body' @ close_tag (tag_text t) @ post' @ r = body @ close_tag (tag_text t) @ post"
    by (simp add: t')
  have l2: "length body' + length (close_tag (tag_text t)) + length post'
      < length body + length (close_tag (tag_text t))"
    using len by (simp add: d pre' t' B)
  then have lb: "length body' < length body" by simp
  have "(body @ close_tag (tag_text t)) @ post = (body' @ close_tag (tag_text t) @ post') @ r"
    using eq2 by simp
  then have "prefix (body' @ close_tag (tag_text t) @ post') ((body @ close_tag (tag_text t)) @ post)"
    by (rule prefixI)
  moreover have "length (body' @ close_tag (tag_text t) @ post') \<le> length (body @ close_tag (tag_text t))"
    using l2 by simp
  ultimately have "prefix (body' @ close_tag (tag_text t) @ post') (body @ close_tag (tag_text t))"
    by (rule prefix_append_short)
  then obtain r' where "body @ close_tag (tag_text t) = body' @ close_tag (tag_text t) @ post' @ r'"
    by (auto simp: prefix_def)
  then have "prefix (close_tag (tag_text t)) (drop (length body') (body @ close_tag (tag_text t)))"
    by simp
  with first lb show False by blast
qed

lemma no_open_after_block:
  assumes S: "S = pre @ B @ post"
    and B: "B = open_tag (tag_text t) @ body @ close_tag (tag_text t)"
    and H1: "open_positions S = [length pre]"
    and q: "prefix q post"
  shows "\<not> opens_here (drop i q)"
proof
  assume "opens_here (drop i q)"
  then have "opens_here (drop i post)"
    using opens_here_prefix[OF prefix_drop_mono[OF q]] by blast
  moreover have "drop (length pre + length B + i) S = drop i post"
    by (simp add: S)
  ultimately have "length pre + length B + i = length pre"
    using only_open_position[OF H1, of "length pre + length B + i"] by simp
  then show False by (simp add: B open_tag_def)
qed

lemma calls_of_simps [simp]:
  "calls_of [] = []"
  "calls_of (Yield c # evs) = calls_of evs"
  "calls_of (Scan b # evs) = calls_of evs"
  "calls_of (Call t a # evs) = (t, a) # calls_of evs"
  "calls_of (xs @ ys) = calls_of xs @ calls_of ys"
  by (simp_all add: calls_of_def)

lemma processChunks_Cons_fst:
  "fst (processChunks e (c # cs) st)
     = fst (processChunk e c st) @ fst (processChunks e cs (snd (processChunk e c st)))"
  by (simp split: prod.splits)

lemma processChunk_no_block:
  assumes "findCompleteBlock (buffer @ chunkContent chunk) = None"
  shows "processChunk e chunk (buffer, w)
           = ([Yield chunk, Scan (buffer @ chunkContent chunk)], buffer @ chunkContent chunk, w)"
  by (simp add: processChunk_def process_blocks_None[OF assms])

lemma dispatch_registered:
  "tools e t = Some tool \<Longrightarrow> fst (dispatch e t a w) = [(t, a)]"
  by (auto simp: dispatch_def split: prod.splits sum.splits)

lemma no_open_no_calls:
  assumes "\<forall>i. \<not> opens_here (drop i (buffer @ concat (map chunkContent chunks)))"
  shows "calls_of (fst (processChunks e chunks (buffer, w))) = []"
  using assms
proof (induction chunks arbitrary: buffer w)
  case Nil
  then show ?case by simp
next
  case (Cons c chunks)
  let ?b = "buffer @ chunkContent c"
  have pre: "prefix ?b (buffer @ concat (map chunkContent (c # chunks)))" by simp
  have "\<forall>i. \<not> opens_here (drop i ?b)"
    using Cons.prems opens_here_prefix[OF prefix_drop_mono[OF pre]] by blast
  then have "findCompleteBlock ?b = None" by (rule findCompleteBlock_no_open)
  then have pc: "processChunk e c (buffer, w) = ([Yield c, Scan ?b], ?b, w)"
    by (rule processChunk_no_block)
  have "calls_of (fst (processChunks e chunks (?b, w))) = []"
    using Cons.prems by (intro Cons.IH) simp
  then show ?case by (simp add: processChunks_Cons_fst pc del: processChunks.simps)
qed

lemma one_block_one_call:
  assumes S: "S = pre @ B @ post"
    and B: "B = open_tag (tag_text t) @ body @ close_tag (tag_text t)"
    and H1: "open_positions S = [length pre]"
    and H2: "index_of (close_tag (tag_text t)) (body @ close_tag (tag_text t)) = Some (length body)"
    and tool: "tools e t = Some tool"
    and all: "buffer @ concat (map chunkContent chunks) = S"
    and len: "length buffer < length pre + length B"
  shows "calls_of (fst (processChunks e chunks (buffer, w))) = [(t, block_args t B)]"
  using all len
proof (induction chunks arbitrary: buffer w)
  case Nil
  then have "length S < length pre + length B" by simp
  then show ?case by (simp add: S)
next
  case (Cons c chunks)
  let ?b = "buffer @ chunkContent c"
  have rest: "?b @ concat (map chunkContent chunks) = S" using Cons.prems(1) by simp
  then have pre: "prefix ?b S" by (metis prefixI)
  show ?case
  proof (cases "length ?b < length pre + length B")
    case True
    have "findCompleteBlock ?b = None"
      by (rule no_block_before_complete[OF S B H1 H2 pre True])
    then have pc: "processChunk e c (buffer, w) = ([Yield c, Scan ?b], ?b, w)"
      by (rule processChunk_no_block)
    have "calls_of (fst (processChunks e chunks (?b, w))) = [(t, block_args t B)]"
      by (rule Cons.IH[OF rest True])
    then show ?thesis by (simp add: processChunks_Cons_fst pc del: processChunks.simps)
  next
    case False
    then have ge: "length pre + length B \<le> length ?b" by simp
    let ?info = "\<lparr>block = B, toolName = t, endIdx = length pre + length B\<rparr>"
    let ?d = "dispatch e t (block_args t B) w"
    define q where "q = drop (length pre + length B) ?b"
    have found: "findCompleteBlock ?b = Some ?info"
      by (rule block_found_when_complete[OF S B H1 H2 pre ge])
    have "drop (length pre + length B) (?b @ concat (map chunkContent chunks)) = post"
      unfolding rest by (simp add: S)
    then have q: "q @ concat (map chunkContent chunks) = post" using ge by (simp add: q_def)
    then have "prefix q post" by (metis prefixI)
    then have "\<forall>i. \<not> opens_here (drop i q)"
      using no_open_after_block[OF S B H1] by blast
    then have "findCompleteBlock q = None" by (rule findCompleteBlock_no_open)
    then have after: "process_blocks e c q w' = ([Scan q], q, w')" for w'
      by (rule process_blocks_None)
    have "process_blocks e c ?b w =
        (Scan ?b # map (\<lambda>(t, a). Call t a) (fst ?d)
           @ Yield (c\<lparr>content := ContentString (result_text (fst (snd ?d)))\<rparr>)
           # fst (process_blocks e c q (snd (snd ?d))),
         snd (process_blocks e c q (snd (snd ?d))))"
      using process_blocks_unfold[OF found, of e c w] unfolding q_def by simp
    then have pb: "process_blocks e c ?b w =
        (Scan ?b # map (\<lambda>(t, a). Call t a) (fst ?d)
           @ [Yield (c\<lparr>content := ContentString (result_text (fst (snd ?d)))\<rparr>), Scan q],
         q, snd (snd ?d))"
      by (simp add: after)
    have pc: "calls_of (fst (processChunk e c (buffer, w))) = [(t, block_args t B)]"
      "snd (processChunk e c (buffer, w)) = (q, snd (snd ?d))"
      by (simp_all add: processChunk_trace pb dispatch_registered[OF tool])
    have "\<forall>i. \<not> opens_here (drop i (q @ concat (map chunkContent chunks)))"
      unfolding q using no_open_after_block[OF S B H1, of post] by simp
    then have "calls_of (fst (processChunks e chunks (q, snd (snd ?d)))) = []"
      by (rule no_open_no_calls)
    with pc show ?thesis by (simp add: processChunks_Cons_fst del: processChunks.simps)
  qed
qed

text \<open>
  C1, as stated, fails: a well-formed \<open>writeToFile\<close> block stands in a text that names
  \<open>moveFile\<close> tags before and behind it. Delivered in two chunks, split behind the
  block, the stream dispatches \<open>writeToFile\<close> with the path and the content; delivered
  as one chunk, it dispatches \<open>moveFile\<close> with undefined paths and never
  \<open>writeToFile\<close>.
\<close>

theorem chunk_split_counterexample:
  "calls_of (fst (processChunks
      \<lparr>tools = (\<lambda>t. Some ()), callTool = (\<lambda>tool a w. (Inr ''ok'', w)),
       format = (\<lambda>t r. Inr r)\<rparr>
      [\<lparr>content = ContentString
          ''see <moveFile>: <writeToFile><path>a.md</path><content>hi</content></writeToFile>''\<rparr>,
       \<lparr>content = ContentString '' or </moveFile>''\<rparr>]
      ([], ())))
     = [(writeToFile, [(''path'', Str ''a.md''), (''content'', Str ''hi'')])]
   \<and> calls_of (fst (processChunks
      \<lparr>tools = (\<lambda>t. Some ()), callTool = (\<lambda>tool a w. (Inr ''ok'', w)),
       format = (\<lambda>t r. Inr r)\<rparr>
      [\<lparr>content = ContentString
          ''see <moveFile>: <writeToFile><path>a.md</path><content>hi</content></writeToFile> or </moveFile>''\<rparr>]
      ([], ())))
     = [(moveFile, [(''fromPath'', Undefined), (''toPath'', Undefined)])]
   \<and> calls_of (fst (processChunks
      \<lparr>tools = (\<lambda>t. Some ()), callTool = (\<lambda>tool a w. (Inr ''ok'', w)),
       format = (\<lambda>t r. Inr r)\<rparr>
      [\<lparr>content = ContentString
          ''see <moveFile>: <writeToFile><path>a.md</path><content>hi</content></writeToFile>''\<rparr>,
       \<lparr>content = ContentString '' or </moveFile>''\<rparr>]
      ([], ())))
     \<noteq> calls_of (fst (processChunks
      \<lparr>tools = (\<lambda>t. Some ()), callTool = (\<lambda>tool a w. (Inr ''ok'', w)),
       format = (\<lambda>t r. Inr r)\<rparr>
      [\<lparr>content = ContentString
          ''see <moveFile>: <writeToFile><path>a.md</path><content>hi</content></writeToFile> or </moveFile>''\<rparr>]
      ([], ())))"
  by code_simp

text \<open>
  C1, amended. Let a stream consist of a text, a block (an opening tag of a recognised
  name, a body, and the first closing tag of that name behind the opening tag) and a text,
  let the opening tag of the block be the only recognised opening tag that begins anywhere
  in the stream, and let the tool of the name be registered. Then every splitting of the
  stream into chunks, delivered in order to a new streamer, dispatches exactly one tool
  call, with the name of the block and the arguments extracted from the block, and so does
  the delivery of the whole stream as a single chunk.
\<close>

theorem single_block_dispatched_once:
  assumes "concat (map chunkContent chunks)
             = pre @ open_tag (tag_text t) @ body @ close_tag (tag_text t) @ post"
    and "chunkContent whole
             = pre @ open_tag (tag_text t) @ body @ close_tag (tag_text t) @ post"
    and "open_positions (pre @ open_tag (tag_text t) @ body @ close_tag (tag_text t) @ post)
             = [length pre]"
    and "index_of (close_tag (tag_text t)) (body @ close_tag (tag_text t)) = Some (length body)"
    and "tools e t = Some tool"
  shows "calls_of (fst (processChunks e chunks ([], w)))
           = [(t, block_args t (open_tag (tag_text t) @ body @ close_tag (tag_text t)))]
         \<and> calls_of (fst (processChunks e [whole] ([], w)))
           = calls_of (fst (processChunks e chunks ([], w)))"
proof -
  let ?B = "open_tag (tag_text t) @ body @ close_tag (tag_text t)"
  let ?S = "pre @ ?B @ post"
  have S: "?S = pre @ ?B @ post" and B: "?B = open_tag (tag_text t) @ body @ close_tag (tag_text t)"
    by simp_all
  have H1: "open_positions ?S = [length pre]" using assms(3) by simp
  have len: "length ([] :: string) < length pre + length ?B" by (simp add: open_tag_def)
  have a1: "[] @ concat (map chunkContent chunks) = ?S" using assms(1) by simp
  have a2: "[] @ concat (map chunkContent [whole]) = ?S" using assms(2) by simp
  have "calls_of (fst (processChunks e chunks ([], w))) = [(t, block_args t ?B)]"
    by (rule one_block_one_call[OF S B H1 assms(4) assms(5) a1 len])
  moreover have "calls_of (fst (processChunks e [whole] ([], w))) = [(t, block_args t ?B)]"
    by (rule one_block_one_call[OF S B H1 assms(4) assms(5) a2 len])
  ultimately show ?thesis by simp
qed

theorem single_block_dispatched_once_witness:
  "calls_of (fst (processChunks
      \<lparr>tools = (\<lambda>t. Some ()), callTool = (\<lambda>tool a w. (Inr ''ok'', w)),
       format = (\<lambda>t r. Inr r)\<rparr>
      [\<lparr>content = ContentString ''he<writeToFile><path>a.md</pa''\<rparr>,
       \<lparr>content = ContentString ''th><content>hi</content></writeT''\<rparr>,
       \<lparr>content = ContentString ''oFile>llo''\<rparr>]
      ([], ())))
     = [(writeToFile, [(''path'', Str ''a.md''), (''content'', Str ''hi'')])]
   \<and> calls_of (fst (processChunks
      \<lparr>tools = (\<lambda>t. Some ()), callTool = (\<lambda>tool a w. (Inr ''ok'', w)),
       format = (\<lambda>t r. Inr r)\<rparr>
      [\<lparr>content = ContentString
          ''he<writeToFile><path>a.md</path><content>hi</content></writeToFile>llo''\<rparr>]
      ([], ())))
     = [(writeToFile, [(''path'', Str ''a.md''), (''content'', Str ''hi'')])]
   \<and> open_positions
        (''he'' @ open_tag (tag_text writeToFile) @ ''<path>a.md</path><content>hi</content>''
           @ close_tag (tag_text writeToFile) @ ''llo'') = [length ''he'']
   \<and> index_of (close_tag (tag_text writeToFile))
        (''<path>a.md</path><content>hi</content>'' @ close_tag (tag_text writeToFile))
       = Some (length ''<path>a.md</path><content>hi</content>'')"
proof -
  let ?e = "\<lparr>tools = (\<lambda>t. Some ()), callTool = (\<lambda>tool a w. (Inr ''ok'', w)),
       format = (\<lambda>t r. Inr r)\<rparr> :: (unit, string, unit) env"
  let ?chunks = "[\<lparr>content = ContentString ''he<writeToFile><path>a.md</pa''\<rparr>,
       \<lparr>content = ContentString ''th><content>hi</content></writeT''\<rparr>,
       \<lparr>content = ContentString ''oFile>llo''\<rparr>]"
  let ?whole = "\<lparr>content = ContentString
          ''he<writeToFile><path>a.md</path><content>hi</content></writeToFile>llo''\<rparr>"
  let ?body = "''<path>a.md</path><content>hi</content>''"
  have h1: "concat (map chunkContent ?chunks)
      = ''he'' @ open_tag (tag_text writeToFile) @ ?body @ close_tag (tag_text writeToFile) @ ''llo''"
    by code_simp
  have h2: "chunkContent ?whole
      = ''he'' @ open_tag (tag_text writeToFile) @ ?body @ close_tag (tag_text writeToFile) @ ''llo''"
    by code_simp
  have h3: "open_positions
        (''he'' @ open_tag (tag_text writeToFile) @ ?body @ close_tag (tag_text writeToFile) @ ''llo'')
      = [length ''he'']"
    by code_simp
  have h4: "index_of (close_tag (tag_text writeToFile)) (?body @ close_tag (tag_text writeToFile))
      = Some (length ?body)"
    by code_simp
  have h5: "tools ?e writeToFile = Some ()" by simp
  have a: "block_args writeToFile
      (open_tag (tag_text writeToFile) @ ?body @ close_tag (tag_text writeToFile))
      = [(''path'', Str ''a.md''), (''content'', Str ''hi'')]"
    by code_simp
  from single_block_dispatched_once [OF h1 h2 h3 h4 h5, of "()"] a
  have "calls_of (fst (processChunks ?e ?chunks ([], ())))
          = [(writeToFile, [(''path'', Str ''a.md''), (''content'', Str ''hi'')])]
        \<and> calls_of (fst (processChunks ?e [?whole] ([], ())))
          = [(writeToFile, [(''path'', Str ''a.md''), (''content'', Str ''hi'')])]"
    by (simp only:)
  with h3 h4 show ?thesis by blast
qed

subsection \<open>At most one dispatch for a block\<close>

lemma scans_of_simps [simp]:
  "scans_of [] = []"
  "scans_of (Yield c # evs) = scans_of evs"
  "scans_of (Scan b # evs) = b # scans_of evs"
  "scans_of (Call t a # evs) = scans_of evs"
  "scans_of (xs @ ys) = scans_of xs @ scans_of ys"
  by (simp_all add: scans_of_def)

lemma scans_of_calls [simp]: "scans_of (map (\<lambda>(t, a). Call t a) cs) = []"
  by (induction cs) auto

lemma calls_of_calls [simp]: "calls_of (map (\<lambda>(t, a). Call t a) cs) = cs"
  by (induction cs) auto

lemma dispatch_calls_by_registry:
  "fst (dispatch e t a w) = (case tools e t of None \<Rightarrow> [] | Some tool \<Rightarrow> [(t, a)])"
  by (auto simp: dispatch_def split: option.splits prod.splits sum.splits)

lemma process_blocks_scans:
  fixes chunk :: "'m chunk_scheme"
  shows "(\<exists>rest. scans_of (fst (process_blocks e chunk buffer w)) = buffer # rest)
    \<and> last (scans_of (fst (process_blocks e chunk buffer w)))
        = fst (snd (process_blocks e chunk buffer w))
    \<and> (\<forall>i. Suc i < length (scans_of (fst (process_blocks e chunk buffer w))) \<longrightarrow>
          (\<exists>info. findCompleteBlock (scans_of (fst (process_blocks e chunk buffer w)) ! i) = Some info
             \<and> scans_of (fst (process_blocks e chunk buffer w)) ! Suc i
                 = drop (endIdx info) (scans_of (fst (process_blocks e chunk buffer w)) ! i)
             \<and> length (scans_of (fst (process_blocks e chunk buffer w)) ! Suc i)
                 < length (scans_of (fst (process_blocks e chunk buffer w)) ! i)))
    \<and> calls_of (fst (process_blocks e chunk buffer w))
        = concat (map (\<lambda>b. case findCompleteBlock b of
                              None \<Rightarrow> []
                            | Some info \<Rightarrow>
                                (case tools e (toolName info) of
                                   None \<Rightarrow> []
                                 | Some tool \<Rightarrow>
                                     [(toolName info, block_args (toolName info) (block info))]))
                    (scans_of (fst (process_blocks e chunk buffer w))))
    \<and> length (calls_of (fst (process_blocks e chunk buffer w)))
        \<le> length (scans_of (fst (process_blocks e chunk buffer w))) - 1"
proof (induction e chunk buffer w rule: process_blocks.induct)
  case (1 e chunk buffer w)
  show ?case
  proof (cases "findCompleteBlock buffer")
    case None
    then show ?thesis by (simp add: process_blocks_None)
  next
    case (Some info)
    let ?a = "block_args (toolName info) (block info)"
    let ?d = "dispatch e (toolName info) ?a w"
    let ?y = "Yield (chunk\<lparr>content := ContentString (result_text (fst (snd ?d)))\<rparr>)"
    let ?r = "process_blocks e chunk (drop (endIdx info) buffer) (snd (snd ?d))"
    let ?g = "\<lambda>b. case findCompleteBlock b of
                              None \<Rightarrow> []
                            | Some info \<Rightarrow>
                                (case tools e (toolName info) of
                                   None \<Rightarrow> []
                                 | Some tool \<Rightarrow>
                                     [(toolName info, block_args (toolName info) (block info))])"
    have pb: "process_blocks e chunk buffer w
        = (Scan buffer # map (\<lambda>(t, a). Call t a) (fst ?d) @ ?y # fst ?r, snd ?r)"
      by (rule process_blocks_unfold[OF Some])
    have IH: "(\<exists>rest. scans_of (fst ?r) = drop (endIdx info) buffer # rest)
      \<and> last (scans_of (fst ?r)) = fst (snd ?r)
      \<and> (\<forall>i. Suc i < length (scans_of (fst ?r)) \<longrightarrow>
          (\<exists>info. findCompleteBlock (scans_of (fst ?r) ! i) = Some info
             \<and> scans_of (fst ?r) ! Suc i = drop (endIdx info) (scans_of (fst ?r) ! i)
             \<and> length (scans_of (fst ?r) ! Suc i) < length (scans_of (fst ?r) ! i)))
      \<and> calls_of (fst ?r) = concat (map ?g (scans_of (fst ?r)))
      \<and> length (calls_of (fst ?r)) \<le> length (scans_of (fst ?r)) - 1"
      by (rule "1.IH"[OF Some]) (simp_all add: prod_eq_iff)
    then obtain rest where rest: "scans_of (fst ?r) = drop (endIdx info) buffer # rest" by blast
    have sc: "scans_of (fst (process_blocks e chunk buffer w)) = buffer # scans_of (fst ?r)"
      by (simp add: pb)
    have ca: "calls_of (fst (process_blocks e chunk buffer w)) = fst ?d @ calls_of (fst ?r)"
      by (simp add: pb)
    have st: "snd (process_blocks e chunk buffer w) = snd ?r" by (simp add: pb)
    have g: "?g buffer = fst ?d" by (simp add: Some dispatch_calls_by_registry)
    have shorter: "length (drop (endIdx info) buffer) < length buffer"
      using findCompleteBlock_endIdx_pos[OF Some] findCompleteBlock_nonempty[OF Some] by simp
    have c1: "\<exists>rest. scans_of (fst (process_blocks e chunk buffer w)) = buffer # rest"
      using sc by blast
    have c2: "last (scans_of (fst (process_blocks e chunk buffer w)))
        = fst (snd (process_blocks e chunk buffer w))"
      using IH by (simp add: sc st rest)
    have c3: "\<forall>i. Suc i < length (scans_of (fst (process_blocks e chunk buffer w))) \<longrightarrow>
          (\<exists>info. findCompleteBlock (scans_of (fst (process_blocks e chunk buffer w)) ! i) = Some info
             \<and> scans_of (fst (process_blocks e chunk buffer w)) ! Suc i
                 = drop (endIdx info) (scans_of (fst (process_blocks e chunk buffer w)) ! i)
             \<and> length (scans_of (fst (process_blocks e chunk buffer w)) ! Suc i)
                 < length (scans_of (fst (process_blocks e chunk buffer w)) ! i))"
    proof (intro allI impI)
      fix i assume i: "Suc i < length (scans_of (fst (process_blocks e chunk buffer w)))"
      show "\<exists>info. findCompleteBlock (scans_of (fst (process_blocks e chunk buffer w)) ! i) = Some info
             \<and> scans_of (fst (process_blocks e chunk buffer w)) ! Suc i
                 = drop (endIdx info) (scans_of (fst (process_blocks e chunk buffer w)) ! i)
             \<and> length (scans_of (fst (process_blocks e chunk buffer w)) ! Suc i)
                 < length (scans_of (fst (process_blocks e chunk buffer w)) ! i)"
      proof (cases i)
        case 0
        then show ?thesis using Some shorter by (simp add: sc rest)
      next
        case (Suc j)
        then have "Suc j < length (scans_of (fst ?r))" using i by (simp add: sc)
        with IH have "\<exists>info. findCompleteBlock (scans_of (fst ?r) ! j) = Some info
             \<and> scans_of (fst ?r) ! Suc j = drop (endIdx info) (scans_of (fst ?r) ! j)
             \<and> length (scans_of (fst ?r) ! Suc j) < length (scans_of (fst ?r) ! j)"
          by blast
        then show ?thesis by (simp add: sc Suc)
      qed
    qed
    have c4: "calls_of (fst (process_blocks e chunk buffer w))
        = concat (map ?g (scans_of (fst (process_blocks e chunk buffer w))))"
      using IH by (simp only: ca sc g list.map concat.simps)
    have "length (fst ?d) \<le> 1" by (simp add: dispatch_calls_by_registry split: option.splits)
    moreover have "length (calls_of (fst ?r)) \<le> length (scans_of (fst ?r)) - 1"
      using IH by blast
    moreover have "0 < length (scans_of (fst ?r))" by (simp add: rest)
    ultimately have "length (fst ?d) + length (calls_of (fst ?r))
        \<le> Suc (length (scans_of (fst ?r))) - 1"
      by arith
    then have c5: "length (calls_of (fst (process_blocks e chunk buffer w)))
        \<le> length (scans_of (fst (process_blocks e chunk buffer w))) - 1"
      by (simp add: ca sc)
    from c1 c2 c3 c4 c5 show ?thesis by blast
  qed
qed

lemma no_block_carried_over:
  assumes none: "findCompleteBlock buf = None"
    and found: "findCompleteBlock (buf @ txt) = Some info"
  shows "length buf < endIdx info"
proof (rule ccontr)
  assume "\<not> length buf < endIdx info"
  then have le: "endIdx info \<le> length buf" by simp
  from found obtain pre body post where
    b: "buf @ txt = pre @ open_tag (tag_text (toolName info)) @ body
          @ close_tag (tag_text (toolName info)) @ post"
    and blk: "block info = open_tag (tag_text (toolName info)) @ body
          @ close_tag (tag_text (toolName info))"
    and e: "endIdx info = length pre + length (block info)"
    unfolding findCompleteBlock_Some_iff by blast
  have "buf = take (length buf) (buf @ txt)" by simp
  also have "\<dots> = take (length buf) ((pre @ block info) @ post)"
    by (simp only: b blk append_assoc)
  also have "\<dots> = (pre @ block info) @ take (length buf - endIdx info) post"
    using le e by simp
  finally have "buf = pre @ open_tag (tag_text (toolName info)) @ body
          @ close_tag (tag_text (toolName info)) @ take (length buf - endIdx info) post"
    by (simp add: blk)
  then have "\<exists>pre t body post.
      buf = pre @ open_tag (tag_text t) @ body @ close_tag (tag_text t) @ post"
    by (intro exI)
  then have "findCompleteBlock buf \<noteq> None"
    by (simp only: findCompleteBlock_None_iff not_not)
  with none show False by (rule notE[rotated])
qed

text \<open>
  C9. After a call of \<open>processChunk\<close> has run to its end, \<open>findCompleteBlock\<close> finds no
  block in the buffer, the buffer holds no complete recognised pair of tags, and it is an
  end part of the old buffer followed by the text of the chunk. A block found by a later
  call ends behind what this call left in the buffer: no complete block is carried over.
  The scans of the call start with the old buffer followed by the text of the chunk and end
  with the buffer that is left; each scan but the last finds a block, and the next scan
  is of the strictly shorter buffer cut behind that block, so that no block is scanned
  twice. The tool calls of the call are, in order, one call for each scan that finds a
  block whose tool is registered, with the name and the arguments of that block, and none
  else: a block is dispatched at most once.
\<close>

theorem processChunk_dispatches_block_once:
  "findCompleteBlock (fst (snd (processChunk e chunk st))) = None
   \<and> suffix (fst (snd (processChunk e chunk st))) (fst st @ chunkContent chunk)
   \<and> \<not> (\<exists>pre t body post. fst (snd (processChunk e chunk st))
            = pre @ open_tag (tag_text t) @ body @ close_tag (tag_text t) @ post)
   \<and> (\<forall>txt info. findCompleteBlock (fst (snd (processChunk e chunk st)) @ txt) = Some info
         \<longrightarrow> length (fst (snd (processChunk e chunk st))) < endIdx info)
   \<and> (\<exists>rest. scans_of (fst (processChunk e chunk st)) = (fst st @ chunkContent chunk) # rest)
   \<and> last (scans_of (fst (processChunk e chunk st))) = fst (snd (processChunk e chunk st))
   \<and> (\<forall>i. Suc i < length (scans_of (fst (processChunk e chunk st))) \<longrightarrow>
         (\<exists>info. findCompleteBlock (scans_of (fst (processChunk e chunk st)) ! i) = Some info
            \<and> scans_of (fst (processChunk e chunk st)) ! Suc i
                = drop (endIdx info) (scans_of (fst (processChunk e chunk st)) ! i)
            \<and> length (scans_of (fst (processChunk e chunk st)) ! Suc i)
                < length (scans_of (fst (processChunk e chunk st)) ! i)))
   \<and> calls_of (fst (processChunk e chunk st))
       = concat (map (\<lambda>b. case findCompleteBlock b of
                             None \<Rightarrow> []
                           | Some info \<Rightarrow>
                               (case tools e (toolName info) of
                                  None \<Rightarrow> []
                                | Some tool \<Rightarrow>
                                    [(toolName info, block_args (toolName info) (block info))]))
                   (scans_of (fst (processChunk e chunk st))))
   \<and> length (calls_of (fst (processChunk e chunk st)))
       \<le> length (scans_of (fst (processChunk e chunk st))) - 1"
proof -
  obtain buffer w where st: "st = (buffer, w)" by (cases st)
  let ?p = "process_blocks e chunk (buffer @ chunkContent chunk) w"
  have tr: "fst (processChunk e chunk st) = Yield chunk # fst ?p"
    and sn: "snd (processChunk e chunk st) = snd ?p"
    by (simp_all add: st processChunk_trace)
  have sc: "scans_of (fst (processChunk e chunk st)) = scans_of (fst ?p)"
    and ca: "calls_of (fst (processChunk e chunk st)) = calls_of (fst ?p)"
    by (simp_all add: tr)
  have bf: "fst st @ chunkContent chunk = buffer @ chunkContent chunk" by (simp add: st)
  note fin = process_blocks_final_buffer[of e chunk "buffer @ chunkContent chunk" w]
  from fin have none: "findCompleteBlock (fst (snd ?p)) = None" by blast
  then have nopair: "\<not> (\<exists>pre t body post. fst (snd ?p)
            = pre @ open_tag (tag_text t) @ body @ close_tag (tag_text t) @ post)"
    by (simp only: findCompleteBlock_None_iff not_False_eq_True)
  have carry: "\<forall>txt info. findCompleteBlock (fst (snd ?p) @ txt) = Some info
         \<longrightarrow> length (fst (snd ?p)) < endIdx info"
    using no_block_carried_over[OF none] by blast
  show ?thesis
    unfolding sc ca sn bf
    using fin nopair carry process_blocks_scans[of e chunk "buffer @ chunkContent chunk" w]
    by blast
qed

theorem processChunk_dispatches_block_once_witness:
  "scans_of (fst (processChunk
      \<lparr>tools = (\<lambda>t. Some ()), callTool = (\<lambda>tool a w. (Inr ''ok'', w)),
       format = (\<lambda>t r. Inr r)\<rparr>
      \<lparr>content = ContentString
         ''Note><path>a</path></deleteNote><createFolder><path>b</path></createFolder>y''\<rparr>
      (''<delete'', ())))
     = [''<deleteNote><path>a</path></deleteNote><createFolder><path>b</path></createFolder>y'',
        ''<createFolder><path>b</path></createFolder>y'',
        ''y'']
   \<and> calls_of (fst (processChunk
      \<lparr>tools = (\<lambda>t. Some ()), callTool = (\<lambda>tool a w. (Inr ''ok'', w)),
       format = (\<lambda>t r. Inr r)\<rparr>
      \<lparr>content = ContentString
         ''Note><path>a</path></deleteNote><createFolder><path>b</path></createFolder>y''\<rparr>
      (''<delete'', ())))
     = [(deleteNote, [(''path'', Str ''a'')]), (createFolder, [(''path'', Str ''b'')])]
   \<and> (\<exists>info. findCompleteBlock ''<createFolder><path>b</path></createFolder>y'' = Some info
        \<and> ''y'' = drop (endIdx info) ''<createFolder><path>b</path></createFolder>y'')"
proof -
  let ?e = "\<lparr>tools = (\<lambda>t. Some ()), callTool = (\<lambda>tool a w. (Inr ''ok'', w)),
       format = (\<lambda>t r. Inr r)\<rparr> :: (unit, string, unit) env"
  let ?c = "\<lparr>content = ContentString
         ''Note><path>a</path></deleteNote><createFolder><path>b</path></createFolder>y''\<rparr>"
  let ?s0 = "''<deleteNote><path>a</path></deleteNote><createFolder><path>b</path></createFolder>y''"
  let ?s1 = "''<createFolder><path>b</path></createFolder>y''"
  let ?tr = "fst (processChunk ?e ?c (''<delete'', ()))"
  have s: "scans_of ?tr = [?s0, ?s1, ''y'']" by code_simp
  have c: "calls_of ?tr = [(deleteNote, [(''path'', Str ''a'')]), (createFolder, [(''path'', Str ''b'')])]"
    by code_simp
  have h: "Suc 1 < length (scans_of ?tr)" by (simp add: s)
  from processChunk_dispatches_block_once [of ?e ?c "(''<delete'', ())"]
  have "\<forall>i. Suc i < length (scans_of ?tr) \<longrightarrow>
         (\<exists>info. findCompleteBlock (scans_of ?tr ! i) = Some info
            \<and> scans_of ?tr ! Suc i = drop (endIdx info) (scans_of ?tr ! i)
            \<and> length (scans_of ?tr ! Suc i) < length (scans_of ?tr ! i))"
    by blast
  from this[rule_format, OF h]
  have "\<exists>info. findCompleteBlock ?s1 = Some info \<and> ''y'' = drop (endIdx info) ?s1"
    unfolding s by simp
  with s c show ?thesis by blast
qed

end
